theory Spec2Isabelle
  imports Complex_Main "HOL-Library.Sublist" "HOL-Library.Multiset" "HOL-Library.Log_Nat"
begin

section \<open>Strings\<close>

text \<open>
  Error messages and queries are JavaScript strings; they are modelled as \<open>string\<close>.
  \<open>str_includes\<close> is \<^verbatim>\<open>String.prototype.includes\<close>, \<open>toLowerCase\<close> folds the
  letters A to Z and leaves every other character as it is, and \<open>startsWith\<close> is
  \<^verbatim>\<open>String.prototype.startsWith\<close>.
\<close>

fun startsWith :: "string \<Rightarrow> string \<Rightarrow> bool" where
  "startsWith s [] = True"
| "startsWith [] (p # ps) = False"
| "startsWith (c # cs) (p # ps) = (c = p \<and> startsWith cs ps)"

fun str_includes :: "string \<Rightarrow> string \<Rightarrow> bool" where
  "str_includes [] t = (t = [])"
| "str_includes (c # cs) t = (startsWith (c # cs) t \<or> str_includes cs t)"

definition isUpper :: "char \<Rightarrow> bool" where
  "isUpper c = (65 \<le> (of_char c :: nat) \<and> (of_char c :: nat) \<le> 90)"

definition lowerChar :: "char \<Rightarrow> char" where
  "lowerChar c = (if isUpper c then char_of ((of_char c :: nat) + 32) else c)"

definition toLowerCase :: "string \<Rightarrow> string" where
  "toLowerCase s = map lowerChar s"

text \<open>
  The specification's reading of "contains, case-insensitively, the substring": some
  window of the message has the pattern's length and agrees with it letter by letter,
  where two characters agree when they are equal or differ only in case.
\<close>

definition sameLetter :: "char \<Rightarrow> char \<Rightarrow> bool" where
  "sameLetter a b =
     (a = b \<or> (isUpper a \<and> (of_char b :: nat) = of_char a + 32)
            \<or> (isUpper b \<and> (of_char a :: nat) = of_char b + 32))"

definition containsIgnoreCase :: "string \<Rightarrow> string \<Rightarrow> bool" where
  "containsIgnoreCase s t = (\<exists>ps w ss. s = ps @ w @ ss \<and> list_all2 sameLetter w t)"

definition containsSubstring :: "string \<Rightarrow> string \<Rightarrow> bool" where
  "containsSubstring s t = (\<exists>ps ss. s = ps @ t @ ss)"

section \<open>The lookup: \<^verbatim>\<open>src/app/actions.ts\<close>\<close>

text \<open>
  A call either returns a value or throws an \<^verbatim>\<open>Error\<close> with a message: the
  result type is \<open>string + 'a\<close>, \<open>Inl\<close> carrying the message of the thrown error.
\<close>

type_synonym 'a thrown = "string + 'a"

datatype id_type = P2671 | P646

record kg_search_result =
  sr_id :: string
  sr_type :: "string list option"
  sr_name :: string
  sr_description :: "string option"
  sr_articleBody :: "string option"

record kg_response =
  r_id :: string
  r_description :: string
  r_name :: string
  r_schemaType :: "string list"
  r_type :: id_type

text \<open>
  The network is a parameter. \<^verbatim>\<open>fetch(url)\<close> rejects (a network failure), or
  resolves to a response with a status code whose body either fails to parse or parses
  to an object with an optional \<^verbatim>\<open>itemListElement\<close>. The URL is kept as the
  parts the template string is built from.
\<close>

datatype url =
  Enterprise string string nat string
| KgSearch string nat string

datatype json_body = Malformed string | Parsed "kg_search_result list option"

datatype http_outcome = FetchError string | Response nat json_body

type_synonym network = "url \<Rightarrow> http_outcome"

definition truthy :: "string option \<Rightarrow> bool" where
  "truthy s = (case s of None \<Rightarrow> False | Some v \<Rightarrow> v \<noteq> [])"

definition stripKg :: "string \<Rightarrow> string" where
  "stripKg rawId = (if startsWith rawId ''kg:'' then drop 3 rawId else rawId)"

definition toResponse :: "kg_search_result \<Rightarrow> kg_response" where
  "toResponse res =
     (let rawId = sr_id res;
          description =
            (if truthy (sr_description res) then the (sr_description res)
             else if truthy (sr_articleBody res) then the (sr_articleBody res)
             else ''No description found'');
          name = sr_name res;
          types = (case sr_type res of None \<Rightarrow> [] | Some ts \<Rightarrow> ts);
          cleanId = stripKg rawId
      in \<lparr> r_id = cleanId, r_description = description, r_name = name,
           r_schemaType = types,
           r_type = (if startsWith cleanId ''/m/'' then P646 else P2671) \<rparr>)"

text \<open>
  The \<^verbatim>\<open>catch\<close> block of \<^verbatim>\<open>fetchKGResults\<close>: only the error whose message
  is \<^verbatim>\<open>"429 Rate Limit"\<close> is thrown again, every other one is logged and an empty
  result list is returned.
\<close>

definition fetchCatch :: "string \<Rightarrow> kg_response list thrown" where
  "fetchCatch message = (if message = ''429 Rate Limit'' then Inl message else Inr [])"

definition fetchKGResults ::
  "network \<Rightarrow> string \<Rightarrow> string option \<Rightarrow> string \<Rightarrow> nat \<Rightarrow> kg_response list thrown" where
  "fetchKGResults fetch query apiKey projectId limit =
     (if query = [] \<or> \<not> truthy apiKey then Inr []
      else
        (let url = (if projectId \<noteq> [] then Enterprise projectId query limit (the apiKey)
                    else KgSearch query limit (the apiKey))
         in case fetch url of
              FetchError message \<Rightarrow> fetchCatch message
            | Response status body \<Rightarrow>
                if status = 429 then fetchCatch ''429 Rate Limit''
                else if \<not> (200 \<le> status \<and> status \<le> 299) then Inr []
                else (case body of
                        Malformed message \<Rightarrow> fetchCatch message
                      | Parsed None \<Rightarrow> Inr []
                      | Parsed (Some elements) \<Rightarrow>
                          if length elements > 0 then Inr (map toResponse elements)
                          else Inr [])))"

fun firstMatch :: "kg_response list \<Rightarrow> kg_response list \<Rightarrow> kg_response option" where
  "firstMatch [] labelResults = None"
| "firstMatch (qRes # qs) labelResults =
     (case filter (\<lambda>lRes. r_id qRes = r_id lRes) labelResults of
        [] \<Rightarrow> firstMatch qs labelResults
      | lRes # _ \<Rightarrow> Some lRes)"

definition firstOrNull :: "kg_response list \<Rightarrow> kg_response option" where
  "firstOrNull results = (case results of [] \<Rightarrow> None | r # _ \<Rightarrow> Some r)"

record search_options =
  opt_projectId :: "string option"
  opt_qid :: "string option"
  opt_strictMode :: bool
  opt_useQidOnly :: bool

definition orEmpty :: "string option \<Rightarrow> string" where
  "orEmpty s = (case s of None \<Rightarrow> [] | Some v \<Rightarrow> v)"

definition searchGoogleKGAction ::
  "network \<Rightarrow> string \<Rightarrow> string option \<Rightarrow> search_options \<Rightarrow> kg_response option thrown" where
  "searchGoogleKGAction fetch label apiKey options =
     (let pid = orEmpty (opt_projectId options); q = orEmpty (opt_qid options)
      in if opt_useQidOnly options then
           (if q \<noteq> [] then
              (case fetchKGResults fetch q apiKey pid 1 of
                 Inl e \<Rightarrow> Inl e
               | Inr results \<Rightarrow> Inr (firstOrNull results))
            else Inr None)
         else if opt_strictMode options \<and> q \<noteq> [] then
           (case fetchKGResults fetch q apiKey pid 3 of
              Inl e \<Rightarrow> Inl e
            | Inr qidResults \<Rightarrow>
                if length qidResults = 0 then Inr None
                else (case fetchKGResults fetch label apiKey pid 10 of
                        Inl e \<Rightarrow> Inl e
                      | Inr labelResults \<Rightarrow> Inr (firstMatch qidResults labelResults)))
         else
           (case fetchKGResults fetch label apiKey pid 1 of
              Inl e \<Rightarrow> Inl e
            | Inr labelResults \<Rightarrow> Inr (firstOrNull labelResults)))"

section \<open>Numbers\<close>

text \<open>
  A JavaScript number is a double. The counts of items are integers far below \<open>2 ^ 53\<close>,
  which doubles hold exactly, as they hold their sums; they are integers here. A quotient
  or a product is the exact result rounded to the nearest double, to the even mantissa on
  a tie. \<open>binaryExponent x\<close> is, for a positive \<open>x\<close>, the \<open>e\<close> with
  \<open>2 ^ e \<le> x < 2 ^ (e + 1)\<close>, and \<open>toDouble\<close> rounds to 53 significant bits. The range
  of the exponent is not limited: no number that occurs here comes near its ends.
\<close>

definition roundHalfEven :: "rat \<Rightarrow> int" where
  "roundHalfEven x =
     (let f = \<lfloor>x\<rfloor>; r = x - of_int f
      in if r < 1 / 2 then f else if 1 / 2 < r then f + 1 else if even f then f else f + 1)"

definition binaryExponent :: "rat \<Rightarrow> int" where
  "binaryExponent x =
     (let k = bitlen (fst (quotient_of x)) - bitlen (snd (quotient_of x))
      in if x < 2 powi k then k - 1 else k)"

definition toDouble :: "rat \<Rightarrow> rat" where
  "toDouble x =
     (if x = 0 then 0
      else (let u = 2 powi (binaryExponent \<bar>x\<bar> - 52)
            in sgn x * of_int (roundHalfEven (\<bar>x\<bar> / u)) * u))"

text \<open>\<^verbatim>\<open>Math.round\<close>: the nearest integer, the upper one on a tie.\<close>

definition mathRound :: "rat \<Rightarrow> int" where
  "mathRound x = \<lfloor>x + 1 / 2\<rfloor>"

section \<open>Retry with backoff: the inner loop of the task in \<^verbatim>\<open>processWikidata\<close>\<close>

text \<open>
  \<^verbatim>\<open>err.message && (err.message.includes("429") ||
  err.message.toLowerCase().includes("quota"))\<close>: an empty message is falsy.
\<close>

definition isRateLimit :: "string \<Rightarrow> bool" where
  "isRateLimit message =
     (message \<noteq> [] \<and> (str_includes message ''429'' \<or> str_includes (toLowerCase message) ''quota''))"

definition MAX_RETRIES :: nat where
  "MAX_RETRIES = 3"

text \<open>
  \<^verbatim>\<open>Math.random()\<close> is a parameter: \<open>random k\<close> is the number drawn before retry
  \<open>k\<close>, a double in \<open>[0, 1)\<close>. \<^verbatim>\<open>Math.floor(Math.random() * 1000)\<close> is the floor of
  the product as a double.
\<close>

definition retryJitter :: "rat \<Rightarrow> int" where
  "retryJitter r = \<lfloor>toDouble (r * 1000)\<rfloor>"

definition backoffDelay :: "nat \<Rightarrow> int" where
  "backoffDelay attempt = 1000 * 2 ^ (attempt - 1)"

text \<open>
  What one run of the loop did: the lookup's calls (\<open>calls\<close>), the delays slept
  before each retry, in order, and how the loop ended: with the lookup's value, or by
  throwing the error of its last call.
\<close>

record 'a attempt_log =
  calls :: nat
  delays :: "int list"
  ended :: "'a thrown"

text \<open>
  \<open>lookup n\<close> is the outcome of the \<open>n\<close>-th call of the lookup for this item
  (counted from 0). \<open>kgResult\<close> starts as \<^verbatim>\<open>null\<close>, which is what the loop leaves
  when its condition fails.
\<close>

function retryLoop ::
  "(nat \<Rightarrow> 'a option thrown) \<Rightarrow> (nat \<Rightarrow> rat) \<Rightarrow> nat \<Rightarrow> nat \<Rightarrow> int list \<Rightarrow> 'a option attempt_log" where
  "retryLoop lookup random attempt n ds =
     (if attempt \<le> MAX_RETRIES then
        (case lookup n of
           Inr kgResult \<Rightarrow> \<lparr> calls = Suc n, delays = ds, ended = Inr kgResult \<rparr>
         | Inl message \<Rightarrow>
             if isRateLimit message then
               (if Suc attempt > MAX_RETRIES
                then \<lparr> calls = Suc n, delays = ds, ended = Inl message \<rparr>
                else retryLoop lookup random (Suc attempt) (Suc n)
                       (ds @ [backoffDelay (Suc attempt) + retryJitter (random (Suc attempt))]))
             else \<lparr> calls = Suc n, delays = ds, ended = Inl message \<rparr>)
      else \<lparr> calls = n, delays = ds, ended = Inr None \<rparr>)"
  by pat_completeness auto
termination
  by (relation "measure (\<lambda>(lookup, random, attempt, n, ds). Suc MAX_RETRIES - attempt)") auto

declare retryLoop.simps [simp del]

section \<open>The executor: \<^verbatim>\<open>src/lib/concurrency.ts\<close>\<close>

text \<open>
  JavaScript runs one turn at a time, so the executor is a transition system whose steps
  are the turns that touch it: a call of \<^verbatim>\<open>enqueue\<close>, and the continuation of
  \<^verbatim>\<open>await result\<close> in \<^verbatim>\<open>run\<close> once a task's promise has settled. Tasks are
  named by numbers. \<open>activeCount\<close> and \<open>queue\<close> are the closure's variables;
  \<open>running\<close> (the tasks whose function has been called and whose \<^verbatim>\<open>run\<close> has
  not reached \<^verbatim>\<open>next()\<close>) and \<open>settled\<close> (the promises returned by
  \<^verbatim>\<open>enqueue\<close> that were resolved, \<open>True\<close>, or rejected, \<open>False\<close>, in that
  order) record what happened.
\<close>

record executor =
  activeCount :: int
  queue :: "nat list"
  running :: "nat list"
  settled :: "(nat \<times> bool) list"

definition pLimit :: executor where
  "pLimit = \<lparr> activeCount = 0, queue = [], running = [], settled = [] \<rparr>"

definition run :: "nat \<Rightarrow> executor \<Rightarrow> executor" where
  "run t s = s\<lparr> activeCount := activeCount s + 1, running := running s @ [t] \<rparr>"

definition nextTask :: "executor \<Rightarrow> executor" where
  "nextTask s =
     (let s1 = s\<lparr> activeCount := activeCount s - 1 \<rparr>
      in if length (queue s1) > 0
         then run (hd (queue s1)) (s1\<lparr> queue := tl (queue s1) \<rparr>)
         else s1)"

definition enqueue :: "int \<Rightarrow> nat \<Rightarrow> executor \<Rightarrow> executor" where
  "enqueue limit t s =
     (if activeCount s < limit then run t s else s\<lparr> queue := queue s @ [t] \<rparr>)"

text \<open>
  The rest of \<^verbatim>\<open>run\<close> after the \<^verbatim>\<open>await\<close>: the promise is resolved or
  rejected, then \<^verbatim>\<open>next()\<close> is called in both cases.
\<close>

definition finish :: "nat \<Rightarrow> bool \<Rightarrow> executor \<Rightarrow> executor" where
  "finish t ok s =
     nextTask (s\<lparr> running := remove1 t (running s), settled := settled s @ [(t, ok)] \<rparr>)"

datatype turn = Submit nat | Settle nat bool

definition known :: "executor \<Rightarrow> nat list" where
  "known s = queue s @ running s @ map fst (settled s)"

text \<open>
  A run of turns. A task is submitted once, and only a running task can settle; a
  sequence that breaks either rule is not a run (\<open>None\<close>).
\<close>

fun turns :: "int \<Rightarrow> turn list \<Rightarrow> executor \<Rightarrow> executor option" where
  "turns limit [] s = Some s"
| "turns limit (Submit t # evs) s =
     (if t \<in> set (known s) then None else turns limit evs (enqueue limit t s))"
| "turns limit (Settle t ok # evs) s =
     (if t \<in> set (running s) then turns limit evs (finish t ok s) else None)"

fun submitted :: "turn list \<Rightarrow> nat list" where
  "submitted [] = []"
| "submitted (Submit t # evs) = t # submitted evs"
| "submitted (Settle t ok # evs) = submitted evs"

text \<open>
  Letting the running tasks settle: \<open>pick\<close> chooses, in each state, which running
  task settles next and whether it fulfils or rejects. \<open>drain pick k\<close> takes up to
  \<open>k\<close> such turns and stops early only when nothing is running.
\<close>

fun drain :: "(executor \<Rightarrow> nat \<times> bool) \<Rightarrow> nat \<Rightarrow> executor \<Rightarrow> executor" where
  "drain pick 0 s = s"
| "drain pick (Suc k) s =
     (if running s = [] then s
      else drain pick k
             (finish (running s ! (fst (pick s) mod length (running s))) (snd (pick s)) s))"

definition outstanding :: "executor \<Rightarrow> nat" where
  "outstanding s = length (queue s) + length (running s)"

text \<open>
  \<^verbatim>\<open>await Promise.all(promises)\<close>: it throws as soon as one promise is rejected and
  returns once all are fulfilled; until then the caller stays suspended.
\<close>

datatype awaited = Suspended | AwaitReturned | AwaitThrew

definition promiseAll :: "nat list \<Rightarrow> executor \<Rightarrow> awaited" where
  "promiseAll promises s =
     (if list_ex (\<lambda>t. (t, False) \<in> set (settled s)) promises then AwaitThrew
      else if list_all (\<lambda>t. (t, True) \<in> set (settled s)) promises then AwaitReturned
      else Suspended)"

text \<open>\<^verbatim>\<open>Math.max(1, validKeys.length * 1)\<close> in the chunk step.\<close>

definition concurrency :: "string list \<Rightarrow> int" where
  "concurrency validKeys = max 1 (int (length validKeys) * 1)"

text \<open>
  \<^verbatim>\<open>items.map((dbItem, idx) => limit(...))\<close> submits the tasks \<open>0, \<dots>, n - 1\<close> in
  one turn; then they settle in the order the schedule picks. The tasks of the chunk
  step catch their own errors, so their promises are fulfilled.
\<close>

definition submitAll :: "int \<Rightarrow> nat \<Rightarrow> executor" where
  "submitAll limit n = foldl (\<lambda>s t. enqueue limit t s) pLimit [0..<n]"

definition completionOrder :: "int \<Rightarrow> nat \<Rightarrow> (executor \<Rightarrow> nat) \<Rightarrow> nat list" where
  "completionOrder limit n schedule =
     map fst (settled (drain (\<lambda>s. (schedule s, True)) n (submitAll limit n)))"

section \<open>Documents: \<^verbatim>\<open>models/Batch.ts\<close> and the BatchItem model\<close>

datatype batch_status = PENDING | UPLOADING | PROCESSING | COMPLETED | FAILED | STOPPED

datatype item_status = ItemPENDING | ItemCOMPLETED | ItemFAILED

record batch =
  status :: batch_status
  progress :: int
  fileName :: string
  readableId :: "nat option"
  totalItems :: int
  processedCount :: int
  error :: "string option"
  validKeys :: "string list"
  projectId :: "string option"
  strictMode :: bool
  useQidOnly :: bool

record wikidata_item =
  qid :: string
  label :: string
  kgId :: "string option"
  rowId :: "nat option"

text \<open>
  The \<^verbatim>\<open>result\<close> the chunk step stores: the empty object, or the five fields copied
  from the lookup's answer (\<^verbatim>\<open>kgId, kgType, kgDescription, kgName, kgSchemaType\<close>).
\<close>

datatype final_result = EmptyObject | Linked string id_type string string "string list"

record batch_item =
  batchId :: nat
  data :: wikidata_item
  result :: "final_result option"
  itemStatus :: item_status
  itemError :: "string option"

text \<open>
  The database: the Batch collection as a map from \<^verbatim>\<open>_id\<close> to document, the
  BatchItem collection as the list of its documents in insertion order, the
  \<^verbatim>\<open>_id\<close> of an item being its position, and the counter document.
\<close>

record database =
  batches :: "nat \<rightharpoonup> batch"
  batchItems :: "batch_item list"
  counterSeq :: nat

text \<open>\<^verbatim>\<open>Batch.findByIdAndUpdate\<close> and \<^verbatim>\<open>BatchItem.findByIdAndUpdate\<close>:
  nothing happens when no document has the id.\<close>

definition updateBatch :: "nat \<Rightarrow> (batch \<Rightarrow> batch) \<Rightarrow> database \<Rightarrow> database" where
  "updateBatch b f db =
     (case batches db b of
        None \<Rightarrow> db
      | Some doc \<Rightarrow> db\<lparr> batches := (batches db)(b \<mapsto> f doc) \<rparr>)"

definition updateItem :: "nat \<Rightarrow> (batch_item \<Rightarrow> batch_item) \<Rightarrow> database \<Rightarrow> database" where
  "updateItem i f db =
     (if i < length (batchItems db)
      then db\<lparr> batchItems := (batchItems db)[i := f (batchItems db ! i)] \<rparr>
      else db)"

definition batchStatusOf :: "nat \<Rightarrow> database \<Rightarrow> batch_status option" where
  "batchStatusOf b db = map_option status (batches db b)"

section \<open>The routes\<close>

datatype response = Success | ErrorResponse nat string

subsection \<open>\<^verbatim>\<open>api/v2/upload/init\<close>\<close>

record init_body =
  body_fileName :: string
  body_totalItems :: int
  body_validKeys :: "string list"
  body_projectId :: "string option"
  body_strictMode :: bool
  body_useQidOnly :: bool

text \<open>\<open>newId\<close> is the \<^verbatim>\<open>_id\<close> the database gives the created document.\<close>

definition uploadInit :: "nat \<Rightarrow> init_body \<Rightarrow> database \<Rightarrow> database" where
  "uploadInit newId body db =
     (let seq = counterSeq db + 1
      in db\<lparr> counterSeq := seq,
              batches := (batches db)(newId \<mapsto>
                \<lparr> status = UPLOADING, progress = 0, fileName = body_fileName body,
                  readableId = Some seq, totalItems = body_totalItems body,
                  processedCount = 0, error = None, validKeys = body_validKeys body,
                  projectId = body_projectId body, strictMode = body_strictMode body,
                  useQidOnly = body_useQidOnly body \<rparr>) \<rparr>)"

subsection \<open>The upload of a chunk of items\<close>

text \<open>
  One \<^verbatim>\<open>updateOne\<close> with \<^verbatim>\<open>upsert: true\<close> and only \<^verbatim>\<open>$setOnInsert\<close>: a document
  matching the filter \<^verbatim>\<open>{ batchId, "data._rowId" }\<close> is left as it is, otherwise the
  item is inserted. \<^verbatim>\<open>bulkWrite\<close> applies the operations in order.
\<close>

definition matchesFilter :: "batch_item \<Rightarrow> batch_item \<Rightarrow> bool" where
  "matchesFilter item doc =
     (batchId doc = batchId item \<and> rowId (data doc) = rowId (data item))"

definition upsertOne :: "batch_item list \<Rightarrow> batch_item \<Rightarrow> batch_item list" where
  "upsertOne docs item = (if list_ex (matchesFilter item) docs then docs else docs @ [item])"

definition bulkWrite :: "batch_item list \<Rightarrow> batch_item list \<Rightarrow> batch_item list" where
  "bulkWrite operations docs = foldl upsertOne docs operations"

definition newItem :: "nat \<Rightarrow> wikidata_item \<Rightarrow> batch_item" where
  "newItem b item =
     \<lparr> batchId = b, data = item, result = None, itemStatus = ItemPENDING, itemError = None \<rparr>"


subsection \<open>\<^verbatim>\<open>api/v2/upload/complete\<close>, \<^verbatim>\<open>batch/[id]/cancel\<close>, \<^verbatim>\<open>batch/[id]/retry\<close>\<close>

text \<open>
  Each route finds the document first; \<open>b\<close> is the \<^verbatim>\<open>_id\<close> the request's id
  resolves to. The event a route sends starts \<open>processWikidata\<close> later; here the route
  returns whether it sent one. Upload complete finds and updates in one operation of the
  database. Cancel and retry read the document with \<^verbatim>\<open>findOne\<close>, test what they
  read, and write with \<^verbatim>\<open>batch.save()\<close>, which sets the fields the request changed
  in the stored document, whatever that holds by then: \<open>cancelSave\<close> and
  \<open>retrySave\<close> are the routes from the result of \<^verbatim>\<open>findOne\<close> on, and
  \<open>others\<close> is what other requests and the driver do to the database between the
  read and the write.
\<close>

definition uploadComplete :: "nat \<Rightarrow> database \<Rightarrow> response \<times> database" where
  "uploadComplete b db =
     (case batches db b of
        None \<Rightarrow> (ErrorResponse 404 ''Batch not found'', db)
      | Some doc \<Rightarrow> (Success, updateBatch b (\<lambda>d. d\<lparr> status := PENDING \<rparr>) db))"

definition cancelSave :: "nat \<Rightarrow> batch option \<Rightarrow> database \<Rightarrow> response \<times> database" where
  "cancelSave b found db =
     (case found of
        None \<Rightarrow> (ErrorResponse 404 ''Batch not found'', db)
      | Some batch \<Rightarrow>
          if status batch = COMPLETED \<or> status batch = FAILED
          then (ErrorResponse 400 ''Batch already finished'', db)
          else (Success, updateBatch b (\<lambda>d. d\<lparr> status := STOPPED \<rparr>) db))"

definition cancel :: "(database \<Rightarrow> database) \<Rightarrow> nat \<Rightarrow> database \<Rightarrow> response \<times> database" where
  "cancel others b db = cancelSave b (batches db b) (others db)"

definition retrySave :: "nat \<Rightarrow> batch option \<Rightarrow> database \<Rightarrow> response \<times> database" where
  "retrySave b found db =
     (case found of
        None \<Rightarrow> (ErrorResponse 404 ''Batch not found'', db)
      | Some batch \<Rightarrow>
          if status batch = COMPLETED
          then (ErrorResponse 400 ''Batch is already completed'', db)
          else if length (validKeys batch) = 0
          then (ErrorResponse 400
                  ''Cannot retry this batch: Missing API Configuration (Keys).'', db)
          else (Success, updateBatch b (\<lambda>d. d\<lparr> status := PENDING, error := None \<rparr>) db))"

definition retry :: "(database \<Rightarrow> database) \<Rightarrow> nat \<Rightarrow> database \<Rightarrow> response \<times> database" where
  "retry others b db = retrySave b (batches db b) (others db)"

section \<open>The driver: \<^verbatim>\<open>processWikidata\<close>\<close>

record batch_event =
  ev_batchId :: nat
  ev_validKeys :: "string list"
  ev_projectId :: "string option"
  ev_strictMode :: bool
  ev_useQidOnly :: bool

text \<open>
  Everything outside the driver is a parameter: \<open>search c idx n\<close> is the lookup as it
  answers the \<open>n\<close>-th call made for item \<open>idx\<close> of chunk \<open>c\<close>, \<open>random c idx k\<close>
  the number \<^verbatim>\<open>Math.random()\<close> gives before retry \<open>k\<close> of that item, \<open>schedule c\<close>
  picks which running task of chunk \<open>c\<close> completes next, and \<open>interfere\<close> is what
  other requests do to the database between two steps of the driver and, in its last
  step, between the read and the write.
\<close>

datatype point = BeforeCheck nat | BeforeChunk nat | BeforeMark | BeforeMarkWrite

record world =
  search :: "nat \<Rightarrow> nat \<Rightarrow> nat \<Rightarrow> string \<Rightarrow> string option \<Rightarrow> search_options \<Rightarrow> kg_response option thrown"
  random :: "nat \<Rightarrow> nat \<Rightarrow> nat \<Rightarrow> rat"
  schedule :: "nat \<Rightarrow> executor \<Rightarrow> nat"
  interfere :: "point \<Rightarrow> database \<Rightarrow> database"

definition BATCH_SIZE :: nat where
  "BATCH_SIZE = 100"

text \<open>\<^verbatim>\<open>BatchItem.find({ batchId, status: "PENDING" }).limit(BATCH_SIZE)\<close>, as the
  ids of the documents found.\<close>

definition findPending :: "nat \<Rightarrow> batch_item list \<Rightarrow> nat list" where
  "findPending b docs =
     take BATCH_SIZE
       (filter (\<lambda>i. batchId (docs ! i) = b \<and> itemStatus (docs ! i) = ItemPENDING)
          [0..<length docs])"

text \<open>\<^verbatim>\<open>Math.round((part / whole) * 100)\<close>, the quotient and the product being
  doubles.\<close>

definition percent :: "int \<Rightarrow> int \<Rightarrow> int" where
  "percent part whole = mathRound (toDouble (toDouble (of_int part / of_int whole) * 100))"

text \<open>\<^verbatim>\<open>validKeys[(chunkIndex * BATCH_SIZE + idx) % validKeys.length]\<close>: with no key
  the index is \<^verbatim>\<open>NaN\<close> and the key \<^verbatim>\<open>undefined\<close>.\<close>

definition keyFor :: "string list \<Rightarrow> nat \<Rightarrow> nat \<Rightarrow> string option" where
  "keyFor keys chunkIndex idx =
     (if length keys = 0 then None
      else Some (keys ! ((chunkIndex * BATCH_SIZE + idx) mod length keys)))"

record chunk_vars =
  cv_chunkIndex :: nat
  cv_totalItems :: int
  cv_baseProcessedCount :: int
  cv_updateInterval :: int
  cv_useGranularUpdates :: bool

text \<open>
  The state the tasks of one chunk share: the database, the counter
  \<^verbatim>\<open>itemsCompletedInChunk\<close>, and, for the record, every pair
  \<^verbatim>\<open>(processedCount, progress)\<close> written to the Batch so far.
\<close>

record chunk_state =
  cs_db :: database
  itemsCompletedInChunk :: int
  progressWrites :: "(int \<times> int) list"

definition countCompleted :: "chunk_vars \<Rightarrow> chunk_state \<Rightarrow> chunk_state" where
  "countCompleted cv st =
     (if cv_useGranularUpdates cv
      then st\<lparr> itemsCompletedInChunk := itemsCompletedInChunk st + 1 \<rparr>
      else st)"

definition writeProgress :: "nat \<Rightarrow> int \<Rightarrow> int \<Rightarrow> chunk_state \<Rightarrow> chunk_state" where
  "writeProgress b n prog st =
     st\<lparr> cs_db := updateBatch b (\<lambda>d. d\<lparr> processedCount := n, progress := prog \<rparr>) (cs_db st),
         progressWrites := progressWrites st @ [(n, prog)] \<rparr>"

definition granularUpdate :: "nat \<Rightarrow> chunk_vars \<Rightarrow> chunk_state \<Rightarrow> chunk_state" where
  "granularUpdate b cv st =
     (if cv_useGranularUpdates cv then
        (let st1 = st\<lparr> itemsCompletedInChunk := itemsCompletedInChunk st + 1 \<rparr>
         in if itemsCompletedInChunk st1 mod cv_updateInterval cv = 0 then
              (let currentTotal = cv_baseProcessedCount cv + itemsCompletedInChunk st1;
                   prog = percent currentTotal (cv_totalItems cv)
               in writeProgress b currentTotal prog st1)
            else st1)
      else st)"

definition toFinalResult :: "kg_response option \<Rightarrow> final_result" where
  "toFinalResult kgResult =
     (case kgResult of
        None \<Rightarrow> EmptyObject
      | Some r \<Rightarrow> Linked (r_id r) (r_type r) (r_description r) (r_name r) (r_schemaType r))"

text \<open>
  The call \<^verbatim>\<open>searchGoogleKGAction(itemData.label, key, {...})\<close> of a task, and the
  retry loop around it as the task runs it, from \<open>attempt = 0\<close>.
\<close>

definition taskLookup ::
  "world \<Rightarrow> batch_event \<Rightarrow> nat \<Rightarrow> nat \<Rightarrow> wikidata_item \<Rightarrow> nat \<Rightarrow> kg_response option thrown" where
  "taskLookup w ev chunkIndex idx itemData n =
     search w chunkIndex idx n (label itemData) (keyFor (ev_validKeys ev) chunkIndex idx)
       \<lparr> opt_projectId = ev_projectId ev, opt_qid = Some (qid itemData),
         opt_strictMode = ev_strictMode ev, opt_useQidOnly = ev_useQidOnly ev \<rparr>"

definition taskAttempts ::
  "world \<Rightarrow> batch_event \<Rightarrow> nat \<Rightarrow> nat \<Rightarrow> wikidata_item \<Rightarrow> kg_response option attempt_log" where
  "taskAttempts w ev chunkIndex idx itemData =
     retryLoop (taskLookup w ev chunkIndex idx itemData) (random w chunkIndex idx) 0 0 []"

text \<open>
  The function each item's task runs, from its \<^verbatim>\<open>try\<close> to its \<^verbatim>\<open>catch\<close>. The
  database writes of a task touch its own item, and the counter is read and written in
  the task's last turn, so a task is one step taken when it completes. The delay of 50
  to 149 ms before the first call changes no state and is left out.
\<close>

definition processTask ::
  "world \<Rightarrow> batch_event \<Rightarrow> chunk_vars \<Rightarrow> nat \<Rightarrow> nat \<times> batch_item \<Rightarrow> chunk_state \<Rightarrow> chunk_state" where
  "processTask w ev cv idx dbItem st =
     (let itemData = data (snd dbItem)
      in if truthy (kgId itemData) then
           countCompleted cv
             (st\<lparr> cs_db := updateItem (fst dbItem)
                     (\<lambda>d. d\<lparr> itemStatus := ItemCOMPLETED \<rparr>) (cs_db st) \<rparr>)
         else
           (case ended (taskAttempts w ev (cv_chunkIndex cv) idx itemData) of
              Inr kgResult \<Rightarrow>
                granularUpdate (ev_batchId ev) cv
                  (st\<lparr> cs_db := updateItem (fst dbItem)
                          (\<lambda>d. d\<lparr> itemStatus := ItemCOMPLETED,
                                  result := Some (toFinalResult kgResult) \<rparr>) (cs_db st) \<rparr>)
            | Inl message \<Rightarrow>
                countCompleted cv
                  (st\<lparr> cs_db := updateItem (fst dbItem)
                          (\<lambda>d. d\<lparr> itemStatus := ItemFAILED, itemError := Some message \<rparr>)
                          (cs_db st) \<rparr>)))"

record chunk_result =
  processed :: nat
  hasMore :: bool

definition countFinished :: "nat \<Rightarrow> batch_item list \<Rightarrow> int" where
  "countFinished b docs =
     int (length (filter (\<lambda>d. batchId d = b \<and>
                                (itemStatus d = ItemCOMPLETED \<or> itemStatus d = ItemFAILED)) docs))"

definition countItems :: "nat \<Rightarrow> batch_item list \<Rightarrow> int" where
  "countItems b docs = int (length (filter (\<lambda>d. batchId d = b) docs))"

text \<open>\<^verbatim>\<open>let updateInterval = Math.ceil(totalItems / 100); if (updateInterval < 1)
  updateInterval = 1\<close>, the quotient being a double.\<close>

definition updateIntervalFor :: "int \<Rightarrow> int" where
  "updateIntervalFor totalCount =
     (let updateInterval = \<lceil>toDouble (of_int totalCount / 100)\<rceil>
      in if updateInterval < 1 then 1 else updateInterval)"

definition chunkVars :: "nat \<Rightarrow> batch option \<Rightarrow> nat \<Rightarrow> chunk_vars" where
  "chunkVars chunkIndex batchDoc n =
     (let total = (case batchDoc of
                     None \<Rightarrow> int n
                   | Some d \<Rightarrow> if totalItems d = 0 then int n else totalItems d);
          base = (case batchDoc of
                    None \<Rightarrow> int (chunkIndex * BATCH_SIZE)
                  | Some d \<Rightarrow> if processedCount d = 0 then int (chunkIndex * BATCH_SIZE)
                              else processedCount d)
      in \<lparr> cv_chunkIndex = chunkIndex, cv_totalItems = total, cv_baseProcessedCount = base,
           cv_updateInterval = updateIntervalFor total,
           cv_useGranularUpdates = (total \<le> 10000) \<rparr>)"

text \<open>The tasks of a chunk, run to completion in a given order over the fetched items.\<close>

definition runTasks ::
  "world \<Rightarrow> batch_event \<Rightarrow> chunk_vars \<Rightarrow> (nat \<times> batch_item) list \<Rightarrow> nat list \<Rightarrow> chunk_state \<Rightarrow> chunk_state" where
  "runTasks w ev cv items order st =
     foldl (\<lambda>st idx. processTask w ev cv idx (items ! idx) st) st order"

text \<open>
  The step \<^verbatim>\<open>process-chunk-k\<close>, in three parts. \<open>runChunk\<close> is the middle of
  the step, from the creation of the executor to \<^verbatim>\<open>await Promise.all(promises)\<close>:
  the tasks of the fetched items complete in the order the executor and the schedule
  give. \<open>syncProgress\<close> is the final sync, which counts the items and writes the exact
  numbers. \<open>processChunk\<close> fetches the pending items, returns at once when there are
  none, and otherwise runs the two parts; it returns the database, the step's result and
  the progress pairs written during the step, in order.
\<close>

definition runChunk :: "world \<Rightarrow> batch_event \<Rightarrow> nat \<Rightarrow> database \<Rightarrow> nat list \<Rightarrow> chunk_state" where
  "runChunk w ev chunkIndex db ids =
     (let items = map (\<lambda>i. (i, batchItems db ! i)) ids;
          limit = concurrency (ev_validKeys ev);
          cv = chunkVars chunkIndex (batches db (ev_batchId ev)) (length items)
      in runTasks w ev cv items
           (completionOrder limit (length items) (schedule w chunkIndex))
           \<lparr> cs_db = db, itemsCompletedInChunk = 0, progressWrites = [] \<rparr>)"

definition syncProgress :: "nat \<Rightarrow> chunk_state \<Rightarrow> chunk_state" where
  "syncProgress b st =
     (let totalFinished = countFinished b (batchItems (cs_db st));
          total = countItems b (batchItems (cs_db st));
          prog = (if total > 0 then percent totalFinished total else 0)
      in writeProgress b totalFinished prog st)"

definition processChunk ::
  "world \<Rightarrow> batch_event \<Rightarrow> nat \<Rightarrow> database \<Rightarrow> database \<times> chunk_result \<times> (int \<times> int) list" where
  "processChunk w ev chunkIndex db =
     (let ids = findPending (ev_batchId ev) (batchItems db)
      in if length ids = 0 then (db, \<lparr> processed = 0, hasMore = False \<rparr>, [])
         else
           (let st = syncProgress (ev_batchId ev) (runChunk w ev chunkIndex db ids)
            in (cs_db st,
                \<lparr> processed = length ids, hasMore = (length ids = BATCH_SIZE) \<rparr>,
                progressWrites st)))"

text \<open>
  What the driver did, step by step: the status a check read, the result of a chunk step
  with the progress pairs it wrote, and the status the last step read.
\<close>

datatype step_event =
  CheckStatus nat "batch_status option"
| ProcessChunk nat nat bool "(int \<times> int) list"
| MarkCompleted "batch_status option"

definition CHUNK_CEILING :: nat where
  "CHUNK_CEILING = 2000"

text \<open>
  The \<^verbatim>\<open>while (hasMore)\<close> loop, entered with \<open>hasMore = true\<close>: it goes round again
  when the chunk reported more and the incremented \<open>chunkIndex\<close> is not above 2000.
\<close>

function driverLoop ::
  "world \<Rightarrow> batch_event \<Rightarrow> nat \<Rightarrow> database \<Rightarrow> step_event list \<Rightarrow> database \<times> step_event list" where
  "driverLoop w ev chunkIndex db tr =
     (let db1 = interfere w (BeforeCheck chunkIndex) db;
          batchStatus = batchStatusOf (ev_batchId ev) db1
      in if batchStatus = Some STOPPED then (db1, tr @ [CheckStatus chunkIndex batchStatus])
         else
           (let r = processChunk w ev chunkIndex (interfere w (BeforeChunk chunkIndex) db1);
                tr' = tr @ [CheckStatus chunkIndex batchStatus,
                            ProcessChunk chunkIndex (processed (fst (snd r)))
                              (hasMore (fst (snd r))) (snd (snd r))]
            in if hasMore (fst (snd r)) \<and> \<not> Suc chunkIndex > CHUNK_CEILING
               then driverLoop w ev (Suc chunkIndex) (fst r) tr'
               else (fst r, tr')))"
  by pat_completeness auto
termination
  by (relation "measure (\<lambda>(w, ev, chunkIndex, db, tr). Suc CHUNK_CEILING - chunkIndex)") auto

declare driverLoop.simps [simp del]

text \<open>
  The steps \<^verbatim>\<open>init-processing\<close> and \<^verbatim>\<open>mark-completed\<close>. The second reads the
  status with \<^verbatim>\<open>findById\<close>, tests what it read, and then writes with
  \<^verbatim>\<open>findByIdAndUpdate\<close>, which has no condition on the status:
  \<open>markCompletedWrite\<close> is the step from the status read on, and other requests
  come between the read and the write.
\<close>

definition initProcessing :: "nat \<Rightarrow> database \<Rightarrow> database" where
  "initProcessing b db = updateBatch b (\<lambda>d. d\<lparr> status := PROCESSING \<rparr>) db"

definition markCompletedWrite :: "nat \<Rightarrow> batch_status option \<Rightarrow> database \<Rightarrow> database" where
  "markCompletedWrite b finalCheck db =
     (if finalCheck \<noteq> Some STOPPED
      then updateBatch b (\<lambda>d. d\<lparr> status := COMPLETED, progress := 100 \<rparr>) db
      else db)"

definition markCompleted :: "world \<Rightarrow> nat \<Rightarrow> database \<Rightarrow> database" where
  "markCompleted w b db =
     markCompletedWrite b (batchStatusOf b db) (interfere w BeforeMarkWrite db)"

definition processWikidata ::
  "world \<Rightarrow> batch_event \<Rightarrow> database \<Rightarrow> database \<times> step_event list" where
  "processWikidata w ev db =
     (let b = ev_batchId ev;
          db0 = initProcessing b db;
          r = driverLoop w ev 0 db0 [];
          db1 = interfere w BeforeMark (fst r)
      in (markCompleted w b db1, snd r @ [MarkCompleted (batchStatusOf b db1)]))"

section \<open>Notions the properties are stated with\<close>

text \<open>
  What holds of the executor in every state a run reaches when the limit is not negative:
  \<open>activeCount\<close> counts the running tasks, it is at most the limit, and tasks wait
  in the queue only while the limit is reached.
\<close>

definition executorInv :: "int \<Rightarrow> executor \<Rightarrow> bool" where
  "executorInv limit s =
     (activeCount s = int (length (running s)) \<and> int (length (running s)) \<le> limit \<and>
      (queue s \<noteq> [] \<longrightarrow> int (length (running s)) = limit))"

text \<open>
  The specification's "other lookup error (network, malformed response, auth)" as an
  outcome of \<^verbatim>\<open>fetch\<close>: the request fails, the response has a status outside 200
  to 299 other than 429 (401 and 403 among them), or the body of an OK response does not
  parse. The message \<^verbatim>\<open>429 Rate Limit\<close> is the rate limit's own.
\<close>

definition otherLookupError :: "http_outcome \<Rightarrow> bool" where
  "otherLookupError out =
     (case out of
        FetchError message \<Rightarrow> message \<noteq> ''429 Rate Limit''
      | Response code body \<Rightarrow>
          code \<noteq> 429 \<and>
          (\<not> (200 \<le> code \<and> code \<le> 299) \<or>
           (case body of Malformed message \<Rightarrow> message \<noteq> ''429 Rate Limit'' | Parsed _ \<Rightarrow> False)))"




record system =
  sys_db :: database
  found :: "nat \<rightharpoonup> batch option"





text \<open>The first \<open>j\<close> calls of a lookup each throw a rate-limit error.\<close>

definition rateLimitedUntil :: "(nat \<Rightarrow> 'a thrown) \<Rightarrow> nat \<Rightarrow> bool" where
  "rateLimitedUntil lookup j =
     list_all (\<lambda>k. case lookup k of Inl message \<Rightarrow> isRateLimit message | Inr v \<Rightarrow> False) [0..<j]"

text \<open>What a task does to the item collection: it rewrites its own item, keeping the
  job id and the payload and leaving the status PENDING behind.\<close>

definition settles :: "(batch_item \<Rightarrow> batch_item) \<Rightarrow> bool" where
  "settles f = (\<forall>d. itemStatus (f d) \<noteq> ItemPENDING \<and> batchId (f d) = batchId d \<and> data (f d) = data d)"

text \<open>Two Batch documents that differ at most in \<^verbatim>\<open>processedCount\<close> and
  \<^verbatim>\<open>progress\<close>, and two Batch collections that differ at most so.\<close>

definition progressOnly :: "batch \<Rightarrow> batch \<Rightarrow> bool" where
  "progressOnly d d' = (d' = d\<lparr> processedCount := processedCount d', progress := progress d' \<rparr>)"

definition batchesProgressOnly :: "(nat \<rightharpoonup> batch) \<Rightarrow> (nat \<rightharpoonup> batch) \<Rightarrow> bool" where
  "batchesProgressOnly m m' =
     (\<forall>b. (case m b of None \<Rightarrow> m' b = None
               | Some d \<Rightarrow> (case m' b of None \<Rightarrow> False | Some d' \<Rightarrow> progressOnly d d')))"

text \<open>All pending items of a job, by position; \<open>findPending\<close> takes the first 100.\<close>

definition pendingIds :: "nat \<Rightarrow> batch_item list \<Rightarrow> nat list" where
  "pendingIds b docs =
     filter (\<lambda>i. batchId (docs ! i) = b \<and> itemStatus (docs ! i) = ItemPENDING) [0..<length docs]"

text \<open>The number of chunk steps in a record of the driver's steps.\<close>

fun chunkSteps :: "step_event list \<Rightarrow> nat" where
  "chunkSteps [] = 0"
| "chunkSteps (ProcessChunk k n h ws # tr) = Suc (chunkSteps tr)"
| "chunkSteps (e # tr) = chunkSteps tr"

text \<open>A record of steps in which a status check that read STOPPED is the last step.\<close>

fun haltsAtStopped :: "step_event list \<Rightarrow> bool" where
  "haltsAtStopped [] = True"
| "haltsAtStopped (CheckStatus k (Some STOPPED) # tr) = (tr = [])"
| "haltsAtStopped (e # tr) = haltsAtStopped tr"

text \<open>Other requests leave an item that is no longer pending as it is, where it is.\<close>

definition keepsSettledItems :: "world \<Rightarrow> bool" where
  "keepsSettledItems w =
     (\<forall>p d j. j < length (batchItems d) \<and> itemStatus (batchItems d ! j) \<noteq> ItemPENDING \<longrightarrow>
        j < length (batchItems (interfere w p d)) \<and>
        batchItems (interfere w p d) ! j = batchItems d ! j)"





section \<open>Example runs\<close>

text \<open>Two lookups that fail: one always reports an exhausted quota, the other a rate
  limit once and then a network error.\<close>

definition quotaWorld :: world where
  "quotaWorld =
     \<lparr> search = (\<lambda>c idx n l k opts. Inl ''Quota exceeded''),
       random = (\<lambda>c idx k. 1 / 2),
       schedule = (\<lambda>c s. 0),
       interfere = (\<lambda>p db. db) \<rparr>"

definition flakyWorld :: world where
  "flakyWorld =
     \<lparr> search = (\<lambda>c idx n l k opts. if n = 0 then Inl ''HTTP 429'' else Inl ''ECONNRESET''),
       random = (\<lambda>c idx k. 1 / 2),
       schedule = (\<lambda>c s. 0),
       interfere = (\<lambda>p db. db) \<rparr>"

text \<open>A lookup that is rate-limited once and then finds no match.\<close>

definition recoveringWorld :: world where
  "recoveringWorld =
     \<lparr> search = (\<lambda>c idx n l k opts. if n = 0 then Inl ''HTTP 429'' else Inr None),
       random = (\<lambda>c idx k. 1 / 2),
       schedule = (\<lambda>c s. 0),
       interfere = (\<lambda>p db. db) \<rparr>"

definition exampleEvent :: batch_event where
  "exampleEvent =
     \<lparr> ev_batchId = 7, ev_validKeys = [''key-a''], ev_projectId = None,
       ev_strictMode = False, ev_useQidOnly = False \<rparr>"

definition exampleItem :: wikidata_item where
  "exampleItem = \<lparr> qid = ''Q42'', label = ''Douglas Adams'', kgId = None, rowId = Some 0 \<rparr>"

text \<open>Three uploaded rows, the third with the row id of the first.\<close>

definition rowA :: wikidata_item where
  "rowA = \<lparr> qid = ''Q1'', label = ''first'', kgId = None, rowId = Some 0 \<rparr>"

definition rowB :: wikidata_item where
  "rowB = \<lparr> qid = ''Q2'', label = ''other'', kgId = None, rowId = Some 1 \<rparr>"


definition exampleBatch :: batch where
  "exampleBatch =
     \<lparr> status = PROCESSING, progress = 0, fileName = ''items.json'', readableId = Some 1,
       totalItems = 1, processedCount = 0, error = None, validKeys = [''key-a''],
       projectId = None, strictMode = False, useQidOnly = False \<rparr>"

definition exampleDb :: database where
  "exampleDb =
     \<lparr> batches = [7 \<mapsto> exampleBatch], batchItems = [newItem 7 exampleItem], counterSeq = 1 \<rparr>"

definition exampleState :: chunk_state where
  "exampleState = \<lparr> cs_db = exampleDb, itemsCompletedInChunk = 0, progressWrites = [] \<rparr>"

text \<open>A network that is down, and a lookup that throws an error of its own.\<close>

definition networkDown :: network where
  "networkDown = (\<lambda>u. FetchError ''ECONNRESET'')"

definition networkDownWorld :: world where
  "networkDownWorld =
     \<lparr> search = (\<lambda>c idx n. searchGoogleKGAction networkDown),
       random = (\<lambda>c idx k. 1 / 2),
       schedule = (\<lambda>c s. 0),
       interfere = (\<lambda>p db. db) \<rparr>"

definition throwingWorld :: world where
  "throwingWorld =
     \<lparr> search = (\<lambda>c idx n l k opts. Inl ''ECONNRESET''),
       random = (\<lambda>c idx k. 1 / 2),
       schedule = (\<lambda>c s. 0),
       interfere = (\<lambda>p db. db) \<rparr>"



text \<open>A database whose one Batch has the given status.\<close>

definition finishedDb :: "batch_status \<Rightarrow> database" where
  "finishedDb s =
     \<lparr> batches = [7 \<mapsto> exampleBatch\<lparr> status := s \<rparr>], batchItems = [], counterSeq = 1 \<rparr>"

text \<open>A job of 200100 items that are all pre-filled, so that no lookup is made.\<close>

definition prefilled :: "nat \<Rightarrow> wikidata_item" where
  "prefilled i = \<lparr> qid = ''Q1'', label = ''known'', kgId = Some ''/m/0abc'', rowId = Some i \<rparr>"

definition bigDb :: database where
  "bigDb =
     \<lparr> batches = [7 \<mapsto> exampleBatch\<lparr> totalItems := 200100 \<rparr>],
       batchItems = map (\<lambda>i. newItem 7 (prefilled i)) [0..<200100],
       counterSeq = 1 \<rparr>"

text \<open>A lookup that finds a match at once.\<close>

definition foundWorld :: world where
  "foundWorld =
     \<lparr> search = (\<lambda>c idx n l k opts.
         Inr (Some \<lparr> r_id = ''/m/0k8z'', r_description = ''English writer'',
                     r_name = ''Douglas Adams'', r_schemaType = [''Person''], r_type = P646 \<rparr>)),
       random = (\<lambda>c idx k. 1 / 2),
       schedule = (\<lambda>c s. 0),
       interfere = (\<lambda>p db. db) \<rparr>"

text \<open>A job stopped after its first item failed: the second item is still pending.\<close>

definition failedItem :: batch_item where
  "failedItem =
     \<lparr> batchId = 7, data = rowA, result = None, itemStatus = ItemFAILED,
       itemError = Some ''Quota exceeded'' \<rparr>"

definition linkedItem :: batch_item where
  "linkedItem =
     \<lparr> batchId = 7, data = rowB,
       result = Some (Linked ''/m/0k8z'' P646 ''English writer'' ''Douglas Adams'' [''Person'']),
       itemStatus = ItemCOMPLETED, itemError = None \<rparr>"

definition resumeDb :: database where
  "resumeDb =
     \<lparr> batches = [7 \<mapsto> exampleBatch\<lparr> status := STOPPED, totalItems := 2, processedCount := 1,
                                       progress := 50 \<rparr>],
       batchItems = [failedItem, newItem 7 rowB],
       counterSeq = 1 \<rparr>"

definition resumedDb :: "batch_status \<Rightarrow> database" where
  "resumedDb s =
     \<lparr> batches = [7 \<mapsto> exampleBatch\<lparr> status := s, totalItems := 2, processedCount := 2,
                                       progress := 100 \<rparr>],
       batchItems = [failedItem, linkedItem],
       counterSeq = 1 \<rparr>"

text \<open>A world in which a cancel request arrives before each status check.\<close>

definition stopWorld :: world where
  "stopWorld =
     \<lparr> search = (\<lambda>c idx n l k opts. Inr None),
       random = (\<lambda>c idx k. 1 / 2),
       schedule = (\<lambda>c s. 0),
       interfere = (\<lambda>p db. case p of BeforeCheck k \<Rightarrow> snd (cancel (\<lambda>d. d) 7 db) | _ \<Rightarrow> db) \<rparr>"

text \<open>A world in which a cancel request is served between the read and the write of the
  driver's last step.\<close>

definition raceWorld :: world where
  "raceWorld =
     foundWorld\<lparr> interfere :=
       (\<lambda>p db. case p of BeforeMarkWrite \<Rightarrow> snd (cancel (\<lambda>d. d) 7 db) | _ \<Rightarrow> db) \<rparr>"





section \<open>Properties of the numbers\<close>

lemma quotient_of_pos:
  assumes "0 < x"
  shows "0 < fst (quotient_of x)" and "0 < snd (quotient_of x)"
    and "x = of_int (fst (quotient_of x)) / of_int (snd (quotient_of x))"
proof -
  obtain a b where q: "quotient_of x = (a, b)" by (cases "quotient_of x")
  have b: "0 < b" using q by (rule quotient_of_denom_pos)
  have x: "x = of_int a / of_int b" using q by (rule quotient_of_div)
  have "0 < a" using assms b x by (simp add: zero_less_divide_iff)
  then show "0 < fst (quotient_of x)" and "0 < snd (quotient_of x)"
    and "x = of_int (fst (quotient_of x)) / of_int (snd (quotient_of x))"
    using q b x by simp_all
qed

lemma bitlen_lower: "0 < a \<Longrightarrow> (2::rat) powi (bitlen a - 1) \<le> of_int a"
proof -
  assume a: "0 < a"
  then have "2 ^ nat (bitlen a - 1) \<le> a" using bitlen_bounds by blast
  then have "(of_int (2 ^ nat (bitlen a - 1)) :: rat) \<le> of_int a" by (simp only: of_int_le_iff)
  moreover have "1 \<le> bitlen a" using a by (simp add: bitlen_alt_def)
  ultimately show ?thesis by (simp add: power_int_def)
qed

lemma bitlen_upper: "0 < a \<Longrightarrow> of_int a < (2::rat) powi (bitlen a)"
proof -
  assume a: "0 < a"
  then have "a < 2 ^ nat (bitlen a)" using bitlen_bounds by blast
  then have "(of_int a :: rat) < of_int (2 ^ nat (bitlen a))" by (simp only: of_int_less_iff)
  moreover have "0 \<le> bitlen a" by (rule bitlen_nonneg)
  ultimately show ?thesis by (simp add: power_int_def)
qed

lemma binaryExponent_bounds:
  assumes "0 < x"
  shows "2 powi (binaryExponent x) \<le> x" and "x < 2 powi (binaryExponent x + 1)"
proof -
  let ?a = "fst (quotient_of x)" and ?b = "snd (quotient_of x)"
  let ?k = "bitlen ?a - bitlen ?b"
  note q = quotient_of_pos[OF assms]
  have al: "(2::rat) powi (bitlen ?a - 1) \<le> of_int ?a" and au: "of_int ?a < (2::rat) powi (bitlen ?a)"
    using q(1) by (rule bitlen_lower, rule bitlen_upper)
  have bl: "(2::rat) powi (bitlen ?b - 1) \<le> of_int ?b" and bu: "of_int ?b < (2::rat) powi (bitlen ?b)"
    using q(2) by (rule bitlen_lower, rule bitlen_upper)
  have bpos: "(0::rat) < of_int ?b" using q(2) by simp
  have lo: "(2::rat) powi (?k - 1) \<le> x"
  proof -
    have "(2::rat) powi (?k - 1) * of_int ?b \<le> 2 powi (?k - 1) * 2 powi (bitlen ?b)"
      using bu by (intro mult_left_mono) simp_all
    also have "\<dots> = 2 powi (bitlen ?a - 1)"
      by (simp add: power_int_add[symmetric])
    also have "\<dots> \<le> of_int ?a" by (rule al)
    finally have "(2::rat) powi (?k - 1) \<le> of_int ?a / of_int ?b"
      using bpos by (simp add: pos_le_divide_eq)
    then show ?thesis using q(3) by simp
  qed
  have hi: "x < (2::rat) powi (?k + 1)"
  proof -
    have "of_int ?a < (2::rat) powi (bitlen ?a)" by (rule au)
    also have "\<dots> = 2 powi (?k + 1) * 2 powi (bitlen ?b - 1)"
      by (simp add: power_int_add[symmetric])
    also have "\<dots> \<le> 2 powi (?k + 1) * of_int ?b"
      using bl by (intro mult_left_mono) simp_all
    finally have "of_int ?a / of_int ?b < (2::rat) powi (?k + 1)"
      using bpos by (simp add: pos_divide_less_eq)
    then show ?thesis using q(3) by simp
  qed
  show "2 powi (binaryExponent x) \<le> x"
    using lo by (auto simp: binaryExponent_def Let_def not_less)
  show "x < 2 powi (binaryExponent x + 1)"
    using hi by (auto simp: binaryExponent_def Let_def)
qed

lemma roundHalfEven_near:
  "\<bar>of_int (roundHalfEven v) - v\<bar> \<le> 1 / 2"
proof -
  have "of_int \<lfloor>v\<rfloor> \<le> v" "v < of_int \<lfloor>v\<rfloor> + 1" by linarith+
  then show ?thesis by (auto simp: roundHalfEven_def Let_def)
qed


lemma roundHalfEven_ge: "of_int K \<le> v \<Longrightarrow> K \<le> roundHalfEven v"
proof -
  assume "of_int K \<le> v"
  moreover have "\<bar>of_int (roundHalfEven v) - v\<bar> \<le> 1 / 2" by (rule roundHalfEven_near)
  ultimately have "(of_int K :: rat) - 1 < of_int (roundHalfEven v)" by linarith
  then have "(of_int (K - 1) :: rat) < of_int (roundHalfEven v)" by simp
  then have "K - 1 < roundHalfEven v" by (simp only: of_int_less_iff)
  then show ?thesis by simp
qed

lemma roundHalfEven_below: "v < of_int K - 1 / 2 \<Longrightarrow> roundHalfEven v \<le> K - 1"
proof -
  assume "v < of_int K - 1 / 2"
  moreover have "\<bar>of_int (roundHalfEven v) - v\<bar> \<le> 1 / 2" by (rule roundHalfEven_near)
  ultimately have "(of_int (roundHalfEven v) :: rat) < of_int K" by linarith
  then have "roundHalfEven v < K" by (simp only: of_int_less_iff)
  then show ?thesis by simp
qed


lemma toDouble_pos:
  "0 < x \<Longrightarrow>
   toDouble x = of_int (roundHalfEven (x / 2 powi (binaryExponent x - 52))) * 2 powi (binaryExponent x - 52)"
  by (simp add: toDouble_def Let_def)

lemma toDouble_nonneg: "0 \<le> x \<Longrightarrow> 0 \<le> toDouble x"
proof (cases "x = 0")
  case True
  then show ?thesis by (simp add: toDouble_def)
next
  case False
  assume "0 \<le> x"
  with False have p: "0 < x" by simp
  let ?u = "(2::rat) powi (binaryExponent x - 52)"
  have u: "0 < ?u" by simp
  have "of_int 0 \<le> x / ?u" using p u by simp
  then have "0 \<le> roundHalfEven (x / ?u)" by (rule roundHalfEven_ge)
  then show ?thesis using u by (simp add: toDouble_pos[OF p])
qed











lemma double_below_one:
  assumes "toDouble r = r" and "0 \<le> r" and "r < 1"
  shows "r \<le> 1 - 1 / 2 ^ 53"
proof (cases "r = 0")
  case True
  then show ?thesis by simp
next
  case False
  with assms(2) have p: "0 < r" by simp
  let ?e = "binaryExponent r"
  note b = binaryExponent_bounds[OF p]
  have "(2::rat) powi ?e < 2 powi 0" using b(1) assms(3) by simp
  then have e: "?e < 0" by (rule power_int_le_imp_less_exp[rotated]) simp_all
  show ?thesis
  proof (cases "?e = - 1")
    case True
    let ?M = "roundHalfEven (r / 2 powi (?e - 52))"
    have u: "(2::rat) powi (?e - 52) = 1 / 2 ^ 53" by (simp add: True power_int_minus_divide)
    have r: "r = of_int ?M * (1 / 2 ^ 53)"
      using toDouble_pos[OF p] assms(1) by (simp only: u)
    then have "of_int ?M * (1 / 2 ^ 53) < (1::rat)" using assms(3) by simp
    then have "(of_int ?M :: rat) < of_int (2 ^ 53)" by (simp add: field_simps)
    then have "?M < 2 ^ 53" by (simp only: of_int_less_iff)
    then have "?M \<le> 2 ^ 53 - 1" by simp
    then have "(of_int ?M :: rat) \<le> of_int (2 ^ 53 - 1)" by (simp only: of_int_le_iff)
    then have "(of_int ?M :: rat) * (1 / 2 ^ 53) \<le> of_int (2 ^ 53 - 1) * (1 / 2 ^ 53)"
      by (rule mult_right_mono) simp
    also have "\<dots> = 1 - 1 / 2 ^ 53" by simp
    finally show ?thesis using r by simp
  next
    case False
    with e have "?e + 1 \<le> - 1" by simp
    then have "(2::rat) powi (?e + 1) \<le> 2 powi (- 1)" by (intro power_int_increasing) simp_all
    with b(2) have "r < 1 / 2" by (simp add: power_int_minus_divide)
    then show ?thesis by simp
  qed
qed

lemma toDouble_thousand:
  assumes "0 \<le> r" and "r \<le> 1 - 1 / 2 ^ 53"
  shows "0 \<le> toDouble (r * 1000)" and "toDouble (r * 1000) < 1000"
proof -
  show "0 \<le> toDouble (r * 1000)" using assms(1) by (intro toDouble_nonneg) simp
  show "toDouble (r * 1000) < 1000"
  proof (cases "r = 0")
    case True
    then show ?thesis by (simp add: toDouble_def)
  next
    case False
    define z where "z = r * 1000"
    have p: "0 < z" using False assms(1) by (simp add: z_def)
    have zle: "z \<le> 1000 - 1000 / 2 ^ 53" using assms(2) by (simp add: z_def)
    let ?e = "binaryExponent z"
    let ?u = "(2::rat) powi (?e - 52)"
    have u: "0 < ?u" by simp
    note b = binaryExponent_bounds[OF p]
    have "(2::rat) powi ?e < 2 powi 10" using b(1) zle by simp
    then have e: "?e < 10" by (rule power_int_le_imp_less_exp[rotated]) simp_all
    define n where "n = nat (52 - ?e)"
    have n: "43 \<le> n" using e by (simp add: n_def)
    have inv: "1 / ?u = (2::rat) ^ n"
      using e by (simp add: n_def power_int_def field_simps)
    have "(2::rat) ^ 43 \<le> 2 ^ n" using n by (intro power_increasing) simp_all
    then have big: "(1000::rat) / 2 ^ 53 * 2 ^ 43 \<le> 1000 / 2 ^ 53 * 2 ^ n"
      by (rule mult_left_mono) simp
    have "z / ?u = z * (1 / ?u)" by simp
    also have "\<dots> = z * 2 ^ n" by (simp only: inv)
    also have "\<dots> \<le> (1000 - 1000 / 2 ^ 53) * 2 ^ n"
      using zle by (rule mult_right_mono) simp
    also have "\<dots> = 1000 * 2 ^ n - 1000 / 2 ^ 53 * 2 ^ n" by (simp add: left_diff_distrib)
    also have "\<dots> \<le> 1000 * 2 ^ n - 1000 / 2 ^ 53 * 2 ^ 43" using big by linarith
    also have "\<dots> < 1000 * 2 ^ n - 1 / 2" by simp
    also have "(1000::rat) * 2 ^ n = of_int (1000 * 2 ^ n)" by simp
    finally have "roundHalfEven (z / ?u) \<le> 1000 * 2 ^ n - 1" by (rule roundHalfEven_below)
    then have "(of_int (roundHalfEven (z / ?u)) :: rat) \<le> of_int (1000 * 2 ^ n - 1)"
      by (simp only: of_int_le_iff)
    then have "of_int (roundHalfEven (z / ?u)) * ?u \<le> of_int (1000 * 2 ^ n - 1) * ?u"
      using u by (simp only: mult_le_cancel_right_pos)
    also have "of_int (1000 * 2 ^ n - 1) * ?u = 1000 - ?u"
    proof -
      define w where "w = ?u"
      have "1 / w = (2::rat) ^ n" "0 < w" using inv u by (simp_all only: w_def)
      then have iw: "2 ^ n * w = 1" by (simp add: field_simps)
      have "of_int (1000 * 2 ^ n - 1) * w = 1000 * (2 ^ n * w) - w" by (simp add: algebra_simps)
      then have "of_int (1000 * 2 ^ n - 1) * w = 1000 - w" by (simp only: iw mult_1_right)
      then show ?thesis by (simp only: w_def)
    qed
    also have "\<dots> < 1000" using u by simp
    finally have "toDouble z < 1000" by (simp only: toDouble_pos[OF p])
    then show ?thesis by (simp only: z_def)
  qed
qed

lemma retryJitter_range:
  assumes "toDouble r = r" and "0 \<le> r" and "r < 1"
  shows "0 \<le> retryJitter r \<and> retryJitter r < 1000"
proof -
  note t = toDouble_thousand[OF assms(2) double_below_one[OF assms]]
  have "0 \<le> \<lfloor>toDouble (r * 1000)\<rfloor>" using t(1) by (simp only: zero_le_floor)
  moreover have "\<lfloor>toDouble (r * 1000)\<rfloor> < 1000" using t(2) by (simp add: floor_less_iff)
  ultimately show ?thesis by (simp add: retryJitter_def)
qed

lemma half_is_double: "toDouble (1 / 2) = 1 / 2"
  by code_simp

lemma jitter_half: "retryJitter (1 / 2) = 500"
  by code_simp

section \<open>Properties of the executor\<close>

lemma executorInv_pLimit: "0 \<le> limit \<Longrightarrow> executorInv limit pLimit"
  by (simp add: executorInv_def pLimit_def)

lemma executorInv_enqueue: "executorInv limit s \<Longrightarrow> executorInv limit (enqueue limit t s)"
  by (auto simp: executorInv_def enqueue_def run_def)

lemma length_remove1_running:
  "t \<in> set xs \<Longrightarrow> int (length (remove1 t xs)) = int (length xs) - 1"
proof -
  assume "t \<in> set xs"
  then obtain n where "length xs = Suc n"
    using length_pos_if_in_set[of t xs] by (cases "length xs") auto
  then show ?thesis using \<open>t \<in> set xs\<close> by (simp add: length_remove1)
qed

lemma executorInv_finish:
  "executorInv limit s \<Longrightarrow> t \<in> set (running s) \<Longrightarrow> executorInv limit (finish t ok s)"
  by (auto simp: executorInv_def finish_def nextTask_def run_def Let_def length_remove1_running)

lemma executorInv_turns:
  "executorInv limit s \<Longrightarrow> turns limit evs s = Some s' \<Longrightarrow> executorInv limit s'"
proof (induction evs arbitrary: s)
  case Nil
  then show ?case by simp
next
  case (Cons e evs)
  then show ?case
    by (cases e) (auto split: if_splits intro: executorInv_enqueue executorInv_finish)
qed

lemma mset_known_enqueue: "mset (known (enqueue limit t s)) = add_mset t (mset (known s))"
  by (simp add: known_def enqueue_def run_def)

lemma mset_known_finish:
  "t \<in> set (running s) \<Longrightarrow> mset (known (finish t ok s)) = mset (known s)"
  by (cases "queue s") (auto simp: known_def finish_def nextTask_def run_def Let_def)

lemma outstanding_finish:
  "t \<in> set (running s) \<Longrightarrow> Suc (outstanding (finish t ok s)) = outstanding s"
  by (cases "queue s")
     (auto simp: outstanding_def finish_def nextTask_def run_def Let_def length_remove1
           dest: length_pos_if_in_set)

lemma mset_known_turns:
  "turns limit evs s = Some s' \<Longrightarrow> mset (known s') = mset (known s) + mset (submitted evs)"
proof (induction evs arbitrary: s)
  case Nil
  then show ?case by simp
next
  case (Cons e evs)
  then show ?case
    by (cases e) (auto split: if_splits simp: mset_known_enqueue mset_known_finish)
qed

lemma distinct_known_turns:
  "distinct (known s) \<Longrightarrow> turns limit evs s = Some s' \<Longrightarrow> distinct (known s')"
proof (induction evs arbitrary: s)
  case Nil
  then show ?case by simp
next
  case (Cons e evs)
  show ?case
  proof (cases e)
    case (Submit t)
    with Cons.prems have fresh: "t \<notin> set (known s)" and rest: "turns limit evs (enqueue limit t s) = Some s'"
      by (auto split: if_splits)
    have "mset (known (enqueue limit t s)) = add_mset t (mset (known s))"
      by (rule mset_known_enqueue)
    then have "distinct (known (enqueue limit t s))"
      using fresh Cons.prems(1)
      by (metis distinct.simps(2) mset.simps(2) mset_eq_imp_distinct_iff)
    then show ?thesis using Cons.IH rest by blast
  next
    case (Settle t ok)
    with Cons.prems have run: "t \<in> set (running s)" and rest: "turns limit evs (finish t ok s) = Some s'"
      by (auto split: if_splits)
    have "distinct (known (finish t ok s))"
      using mset_known_finish[OF run] Cons.prems(1) by (metis mset_eq_imp_distinct_iff)
    then show ?thesis using Cons.IH rest by blast
  qed
qed

lemma drain_all:
  "executorInv limit s \<Longrightarrow> 1 \<le> limit \<Longrightarrow> outstanding s \<le> k \<Longrightarrow>
   running (drain pick k s) = [] \<and> queue (drain pick k s) = [] \<and>
   mset (known (drain pick k s)) = mset (known s)"
proof (induction k arbitrary: s)
  case 0
  then show ?case by (simp add: outstanding_def)
next
  case (Suc k)
  show ?case
  proof (cases "running s = []")
    case True
    with Suc.prems have "queue s = []" by (auto simp: executorInv_def)
    with True show ?thesis by simp
  next
    case False
    define t where "t = running s ! (fst (pick s) mod length (running s))"
    have tin: "t \<in> set (running s)" using False by (simp add: t_def)
    have "outstanding (finish t (snd (pick s)) s) \<le> k"
      using outstanding_finish[OF tin, of "snd (pick s)"] Suc.prems(3) by simp
    from Suc.IH[OF executorInv_finish[OF Suc.prems(1) tin] Suc.prems(2) this]
    show ?thesis using False by (simp add: t_def[symmetric] mset_known_finish[OF tin])
  qed
qed

lemma turns_append:
  "turns limit (evs @ evs') s = (case turns limit evs s of None \<Rightarrow> None | Some s' \<Rightarrow> turns limit evs' s')"
proof (induction evs arbitrary: s)
  case Nil
  then show ?case by simp
next
  case (Cons e evs)
  then show ?case by (cases e) auto
qed

lemma turns_take:
  "turns limit evs s = Some s' \<Longrightarrow> \<exists>sk. turns limit (take k evs) s = Some sk"
  using turns_append[of limit "take k evs" "drop k evs" s]
  by (cases "turns limit (take k evs) s") auto


lemma known_pLimit: "known pLimit = []"
  by (simp add: known_def pLimit_def)

lemma settled_enqueue: "settled (enqueue limit t s) = settled s"
  by (simp add: enqueue_def run_def)

lemma outstanding_enqueue: "outstanding (enqueue limit t s) = Suc (outstanding s)"
  by (simp add: enqueue_def run_def outstanding_def)

lemma submitAll_Suc: "submitAll limit (Suc n) = enqueue limit n (submitAll limit n)"
  by (simp add: submitAll_def)

lemma submitAll_facts:
  "0 \<le> limit \<Longrightarrow>
   executorInv limit (submitAll limit n) \<and> settled (submitAll limit n) = [] \<and>
   outstanding (submitAll limit n) = n \<and> mset (known (submitAll limit n)) = mset [0..<n]"
proof (induction n)
  case 0
  then show ?case
    by (simp add: submitAll_def executorInv_def known_def outstanding_def pLimit_def)
next
  case (Suc n)
  then show ?case
    by (simp add: submitAll_Suc executorInv_enqueue settled_enqueue outstanding_enqueue
        mset_known_enqueue)
qed

lemma mset_completionOrder:
  assumes "1 \<le> limit"
  shows "mset (completionOrder limit n sched) = mset [0..<n]"
proof -
  let ?s = "submitAll limit n"
  have f: "executorInv limit ?s" "outstanding ?s \<le> n" "mset (known ?s) = mset [0..<n]"
    using submitAll_facts[of limit n] assms by auto
  let ?d = "drain (\<lambda>s. (sched s, True)) n ?s"
  have d: "running ?d = []" "queue ?d = []" "mset (known ?d) = mset (known ?s)"
    using drain_all[OF f(1) assms f(2), of "\<lambda>s. (sched s, True)"] by auto
  have "mset (map fst (settled ?d)) = mset (known ?d)"
    using d(1,2) by (simp add: known_def)
  then show ?thesis using d(3) f(3) by (simp add: completionOrder_def)
qed

lemma concurrency_ge_1: "1 \<le> concurrency keys"
  by (simp add: concurrency_def)

lemma promiseAll_returned:
  "promiseAll ts s = AwaitReturned \<Longrightarrow> t \<in> set ts \<Longrightarrow> (t, True) \<in> set (settled s)"
  by (auto simp: promiseAll_def list_all_iff split: if_splits)

lemma promiseAll_not_suspended:
  "set ts \<subseteq> fst ` set (settled s) \<Longrightarrow> promiseAll ts s \<noteq> Suspended"
proof -
  assume sub: "set ts \<subseteq> fst ` set (settled s)"
  show ?thesis
  proof (cases "\<exists>t\<in>set ts. (t, False) \<in> set (settled s)")
    case True
    then show ?thesis by (simp add: promiseAll_def list_ex_iff)
  next
    case False
    have "\<forall>t\<in>set ts. (t, True) \<in> set (settled s)"
    proof
      fix t assume "t \<in> set ts"
      with sub obtain ok where "(t, ok) \<in> set (settled s)" by force
      with False \<open>t \<in> set ts\<close> show "(t, True) \<in> set (settled s)" by (cases ok) auto
    qed
    then show ?thesis using False by (simp add: promiseAll_def list_ex_iff list_all_iff)
  qed
qed

lemma running_nonempty:
  "executorInv limit s \<Longrightarrow> 1 \<le> limit \<Longrightarrow> 0 < outstanding s \<Longrightarrow> running s \<noteq> []"
  by (auto simp: executorInv_def outstanding_def)

lemma settled_finish: "settled (finish t ok s) = settled s @ [(t, ok)]"
  by (simp add: finish_def nextTask_def run_def Let_def)

lemma executorInv_drain: "executorInv limit s \<Longrightarrow> executorInv limit (drain pick j s)"
proof (induction j arbitrary: s)
  case 0
  then show ?case by simp
next
  case (Suc j)
  show ?case
  proof (cases "running s = []")
    case True
    then show ?thesis using Suc.prems by simp
  next
    case False
    define t where "t = running s ! (fst (pick s) mod length (running s))"
    have tin: "t \<in> set (running s)" using False by (simp add: t_def)
    from Suc.IH[OF executorInv_finish[OF Suc.prems tin]]
    show ?thesis using False by (simp add: t_def[symmetric])
  qed
qed

lemma drain_settles:
  "executorInv limit s \<Longrightarrow> 1 \<le> limit \<Longrightarrow> j \<le> outstanding s \<Longrightarrow>
   length (settled (drain pick j s)) = length (settled s) + j \<and>
   mset (known (drain pick j s)) = mset (known s) \<and>
   (\<forall>x \<in> set (settled (drain pick j s)). x \<in> set (settled s) \<or> (\<exists>s'. snd x = snd (pick s')))"
proof (induction j arbitrary: s)
  case 0
  then show ?case by simp
next
  case (Suc j)
  have "0 < outstanding s" using Suc.prems(3) by simp
  then have ne: "running s \<noteq> []" using running_nonempty Suc.prems(1,2) by blast
  define t where "t = running s ! (fst (pick s) mod length (running s))"
  have tin: "t \<in> set (running s)" using ne by (simp add: t_def)
  let ?s1 = "finish t (snd (pick s)) s"
  have o: "j \<le> outstanding ?s1"
    using outstanding_finish[OF tin, of "snd (pick s)"] Suc.prems(3) by simp
  note ih = Suc.IH[OF executorInv_finish[OF Suc.prems(1) tin] Suc.prems(2) o]
  have d: "drain pick (Suc j) s = drain pick j ?s1" using ne by (simp add: t_def[symmetric])
  have l: "length (settled (drain pick (Suc j) s)) = length (settled s) + Suc j"
    unfolding d using ih by (simp add: settled_finish)
  have m: "mset (known (drain pick (Suc j) s)) = mset (known s)"
    unfolding d using ih by (simp add: mset_known_finish[OF tin])
  have x: "\<forall>x \<in> set (settled (drain pick (Suc j) s)). x \<in> set (settled s) \<or> (\<exists>s'. snd x = snd (pick s'))"
  proof
    fix x assume "x \<in> set (settled (drain pick (Suc j) s))"
    then have "x \<in> set (settled ?s1) \<or> (\<exists>s'. snd x = snd (pick s'))"
      unfolding d using ih by blast
    then show "x \<in> set (settled s) \<or> (\<exists>s'. snd x = snd (pick s'))"
      by (auto simp: settled_finish)
  qed
  show ?case using l m x by blast
qed

lemma promiseAll_chunk:
  assumes "1 \<le> limit" and "j \<le> n"
  shows "promiseAll [0..<n] (drain (\<lambda>s. (sched s, True)) j (submitAll limit n)) =
         (if j < n then Suspended else AwaitReturned)"
proof -
  let ?s = "submitAll limit n"
  let ?d = "drain (\<lambda>s. (sched s, True)) j ?s"
  have f: "executorInv limit ?s" "settled ?s = []" "outstanding ?s = n"
    "mset (known ?s) = mset [0..<n]"
    using submitAll_facts[of limit n] assms(1) by auto
  have jo: "j \<le> outstanding ?s" using assms(2) f(3) by simp
  have d: "length (settled ?d) = j" "mset (known ?d) = mset [0..<n]"
    "\<forall>x \<in> set (settled ?d). snd x = True"
    using drain_settles[OF f(1) assms(1) jo, of "\<lambda>s. (sched s, True)"] f(2,4) by auto
  have dist: "distinct (known ?d)" using d(2) by (metis distinct_upt mset_eq_imp_distinct_iff)
  have kset: "set (known ?d) = {0..<n}" using d(2) by (metis mset_eq_setD set_upt)
  have klen: "length (known ?d) = n" using d(2) by (metis length_upt mset_eq_length diff_zero)
  have nofalse: "\<not> list_ex (\<lambda>t. (t, False) \<in> set (settled ?d)) [0..<n]"
    using d(3) by (auto simp: list_ex_iff)
  show ?thesis
  proof (cases "j < n")
    case True
    have "length (queue ?d @ running ?d) = n - j" using klen d(1) by (simp add: known_def)
    then have "queue ?d @ running ?d \<noteq> []" using True by auto
    then obtain t where t: "t \<in> set (queue ?d @ running ?d)" by (cases "queue ?d @ running ?d") auto
    have tk: "t \<in> set (known ?d)" using t by (auto simp: known_def)
    have "t \<notin> set (map fst (settled ?d))" using dist t by (auto simp: known_def)
    then have "(t, True) \<notin> set (settled ?d)" by force
    moreover have "t \<in> set [0..<n]" using tk kset by simp
    ultimately have "\<not> list_all (\<lambda>t. (t, True) \<in> set (settled ?d)) [0..<n]"
      by (auto simp: list_all_iff)
    then show ?thesis using nofalse True by (simp add: promiseAll_def)
  next
    case False
    then have jn: "j = n" using assms(2) by simp
    have "length (queue ?d @ running ?d) = 0" using klen d(1) jn by (simp add: known_def)
    then have "known ?d = map fst (settled ?d)" by (simp add: known_def)
    then have "set (map fst (settled ?d)) = {0..<n}" using kset by simp
    then have "\<forall>t \<in> set [0..<n]. \<exists>ok. (t, ok) \<in> set (settled ?d)" by force
    then have "\<forall>t \<in> set [0..<n]. (t, True) \<in> set (settled ?d)" using d(3) by force
    then have "list_all (\<lambda>t. (t, True) \<in> set (settled ?d)) [0..<n]" by (simp add: list_all_iff)
    then show ?thesis using nofalse False by (simp add: promiseAll_def)
  qed
qed

lemma running_chunk:
  "int (length (running (drain pick j (submitAll (concurrency keys) n)))) \<le> max 1 (int (length keys))"
proof -
  have "0 \<le> concurrency keys" using concurrency_ge_1[of keys] by simp
  then have "executorInv (concurrency keys) (submitAll (concurrency keys) n)"
    using submitAll_facts by blast
  then have "executorInv (concurrency keys) (drain pick j (submitAll (concurrency keys) n))"
    by (rule executorInv_drain)
  then show ?thesis by (simp add: executorInv_def concurrency_def)
qed

lemma runChunk_limit:
  "runChunk w ev k db ids =
     runTasks w ev (chunkVars k (batches db (ev_batchId ev)) (length ids))
       (map (\<lambda>i. (i, batchItems db ! i)) ids)
       (completionOrder (max 1 (int (length (ev_validKeys ev)))) (length ids) (schedule w k))
       \<lparr> cs_db = db, itemsCompletedInChunk = 0, progressWrites = [] \<rparr>"
  by (simp add: runChunk_def Let_def concurrency_def)

text \<open>
  C1. Let the limit \<open>N\<close> be at least 1 and take any run of the executor made by
  \<^verbatim>\<open>pLimit(N)\<close>. At every point of the run at most \<open>N\<close> tasks are in flight, and
  \<open>activeCount\<close> is their number. From the state reached, however the running tasks
  are picked to settle and whether they fulfil or reject, after as many settlements as
  there are tasks outstanding nothing runs or waits any more and the settled promises
  are exactly the submitted tasks, each once: every task was started and settled, a
  rejection holding back none, and an \<^verbatim>\<open>await Promise.all\<close> over them is no longer
  suspended. Whenever \<^verbatim>\<open>await Promise.all\<close> returns, every promise it was given
  has settled. In the chunk step the limit is \<open>max(1, number of keys)\<close>, and that is the
  limit its tasks run under: at most so many of them run at any moment; the step's
  \<^verbatim>\<open>await Promise.all(promises)\<close> over its \<open>n\<close> tasks, which all fulfil, stays
  suspended as long as fewer than \<open>n\<close> of them have settled and returns when the
  \<open>n\<close>-th has; and the tasks complete in an order that has each of them once.
\<close>

theorem executor_bounded_and_live:
  assumes "1 \<le> N" and "turns N evs pLimit = Some s"
  shows "(\<forall>k\<le>length evs. \<exists>sk. turns N (take k evs) pLimit = Some sk \<and>
            int (length (running sk)) \<le> N \<and> activeCount sk = int (length (running sk))) \<and>
         (\<forall>pick. running (drain pick (outstanding s) s) = [] \<and>
                 queue (drain pick (outstanding s) s) = [] \<and>
                 mset (map fst (settled (drain pick (outstanding s) s))) = mset (submitted evs) \<and>
                 promiseAll (submitted evs) (drain pick (outstanding s) s) \<noteq> Suspended) \<and>
         (\<forall>ts. promiseAll ts s = AwaitReturned \<longrightarrow> set ts \<subseteq> fst ` set (settled s)) \<and>
         (\<forall>keys. concurrency keys = max 1 (int (length keys))) \<and>
         (\<forall>w ev k db ids. runChunk w ev k db ids =
            runTasks w ev (chunkVars k (batches db (ev_batchId ev)) (length ids))
              (map (\<lambda>i. (i, batchItems db ! i)) ids)
              (completionOrder (max 1 (int (length (ev_validKeys ev)))) (length ids) (schedule w k))
              \<lparr> cs_db = db, itemsCompletedInChunk = 0, progressWrites = [] \<rparr>) \<and>
         (\<forall>keys n sched j.
            int (length (running (drain (\<lambda>s. (sched s, True)) j (submitAll (concurrency keys) n))))
              \<le> max 1 (int (length keys))) \<and>
         (\<forall>keys n sched j. j \<le> n \<longrightarrow>
            promiseAll [0..<n] (drain (\<lambda>s. (sched s, True)) j (submitAll (concurrency keys) n)) =
              (if j < n then Suspended else AwaitReturned)) \<and>
         (\<forall>keys n sched. mset (completionOrder (concurrency keys) n sched) = mset [0..<n])"
proof -
  have c1: "\<forall>k\<le>length evs. \<exists>sk. turns N (take k evs) pLimit = Some sk \<and>
            int (length (running sk)) \<le> N \<and> activeCount sk = int (length (running sk))"
  proof (intro allI impI)
    fix k assume "k \<le> length evs"
    from turns_take[OF assms(2), of k] obtain sk where sk: "turns N (take k evs) pLimit = Some sk"
      by blast
    have "executorInv N sk"
      using executorInv_turns[OF executorInv_pLimit sk] assms(1) by simp
    then show "\<exists>sk. turns N (take k evs) pLimit = Some sk \<and>
            int (length (running sk)) \<le> N \<and> activeCount sk = int (length (running sk))"
      using sk by (auto simp: executorInv_def)
  qed
  have c2: "\<forall>pick. running (drain pick (outstanding s) s) = [] \<and>
                 queue (drain pick (outstanding s) s) = [] \<and>
                 mset (map fst (settled (drain pick (outstanding s) s))) = mset (submitted evs) \<and>
                 promiseAll (submitted evs) (drain pick (outstanding s) s) \<noteq> Suspended"
  proof
    fix pick
    let ?s' = "drain pick (outstanding s) s"
    have inv: "executorInv N s"
      using executorInv_turns[OF executorInv_pLimit assms(2)] assms(1) by simp
    have d: "running ?s' = []" "queue ?s' = []" "mset (known ?s') = mset (known s)"
      using drain_all[OF inv assms(1) order_refl, of pick] by auto
    have k: "mset (known s) = mset (submitted evs)"
      using mset_known_turns[OF assms(2)] by (simp add: known_pLimit)
    have m: "mset (map fst (settled ?s')) = mset (submitted evs)"
      using d k by (simp add: known_def)
    have "set (map fst (settled ?s')) = set (submitted evs)"
      using m by (rule mset_eq_setD)
    then have "set (submitted evs) \<subseteq> fst ` set (settled ?s')" by simp
    then have "promiseAll (submitted evs) ?s' \<noteq> Suspended" by (rule promiseAll_not_suspended)
    with d(1,2) m show "running ?s' = [] \<and> queue ?s' = [] \<and>
                 mset (map fst (settled ?s')) = mset (submitted evs) \<and>
                 promiseAll (submitted evs) ?s' \<noteq> Suspended" by blast
  qed
  have c3: "\<forall>ts. promiseAll ts s = AwaitReturned \<longrightarrow> set ts \<subseteq> fst ` set (settled s)"
    using promiseAll_returned by force
  have c4: "\<forall>keys. concurrency keys = max 1 (int (length keys))"
    by (simp add: concurrency_def)
  have c5: "\<forall>w ev k db ids. runChunk w ev k db ids =
            runTasks w ev (chunkVars k (batches db (ev_batchId ev)) (length ids))
              (map (\<lambda>i. (i, batchItems db ! i)) ids)
              (completionOrder (max 1 (int (length (ev_validKeys ev)))) (length ids) (schedule w k))
              \<lparr> cs_db = db, itemsCompletedInChunk = 0, progressWrites = [] \<rparr>"
    using runChunk_limit by blast
  have c6: "\<forall>keys n sched j.
            int (length (running (drain (\<lambda>s. (sched s, True)) j (submitAll (concurrency keys) n))))
              \<le> max 1 (int (length keys))"
    using running_chunk by blast
  have c7: "\<forall>keys n sched j. j \<le> n \<longrightarrow>
            promiseAll [0..<n] (drain (\<lambda>s. (sched s, True)) j (submitAll (concurrency keys) n)) =
              (if j < n then Suspended else AwaitReturned)"
    using promiseAll_chunk[OF concurrency_ge_1] by blast
  have c8: "\<forall>keys n sched. mset (completionOrder (concurrency keys) n sched) = mset [0..<n]"
    using mset_completionOrder[OF concurrency_ge_1] by blast
  show ?thesis
    by (intro conjI) (fact c1, fact c2, fact c3, fact c4, fact c5, fact c6, fact c7, fact c8)
qed

lemma idle_turns:
  "limit \<le> 0 \<Longrightarrow> running s = [] \<Longrightarrow> settled s = [] \<Longrightarrow> activeCount s = 0 \<Longrightarrow>
   turns limit evs s = Some s' \<Longrightarrow>
   running s' = [] \<and> settled s' = [] \<and> activeCount s' = 0 \<and> queue s' = queue s @ submitted evs \<and>
   evs = map Submit (submitted evs)"
proof (induction evs arbitrary: s)
  case Nil
  then show ?case by simp
next
  case (Cons e evs)
  show ?case
  proof (cases e)
    case (Submit t)
    with Cons.prems have rest: "turns limit evs (enqueue limit t s) = Some s'"
      by (auto split: if_splits)
    have e: "enqueue limit t s = s\<lparr> queue := queue s @ [t] \<rparr>"
      using Cons.prems by (simp add: enqueue_def)
    from Cons.IH[OF Cons.prems(1) _ _ _ rest] Cons.prems e Submit
    show ?thesis by simp
  next
    case (Settle t ok)
    with Cons.prems show ?thesis by simp
  qed
qed

text \<open>
  C10. With a limit \<open>N \<le> 0\<close> the guard \<^verbatim>\<open>activeCount < limit\<close> never holds: in
  every run, each submitted task goes to the queue and stays there, nothing is running,
  no promise is settled, no turn other than a submission can happen, and waiting for
  tasks to settle changes nothing. The chunk step never passes such a limit, since
  \<^verbatim>\<open>Math.max(1, validKeys.length)\<close> is at least 1.
\<close>

theorem nonpositive_limit_starts_nothing:
  assumes "N \<le> 0" and "turns N evs pLimit = Some s"
  shows "running s = [] \<and> settled s = [] \<and> activeCount s = 0 \<and> queue s = submitted evs \<and>
         evs = map Submit (submitted evs) \<and> (\<forall>pick k. drain pick k s = s) \<and>
         (\<forall>keys. \<not> concurrency keys \<le> 0)"
proof -
  have i: "running s = [] \<and> settled s = [] \<and> activeCount s = 0 \<and>
           queue s = queue pLimit @ submitted evs \<and> evs = map Submit (submitted evs)"
    by (rule idle_turns[OF assms(1) _ _ _ assms(2)]) (simp_all add: pLimit_def)
  have d: "drain pick k s = s" for pick k
    using i by (cases k) simp_all
  have c: "\<not> concurrency keys \<le> 0" for keys
    using concurrency_ge_1[of keys] by simp
  show ?thesis using i d c by (simp add: pLimit_def)
qed


theorem executor_bounded_and_live_witness:
  "(1::int) \<le> 2 \<and>
   turns 2 [Submit 0, Submit 1, Submit 2, Settle 0 True] pLimit =
     Some \<lparr> activeCount = 2, queue = [], running = [1, 2], settled = [(0, True)] \<rparr> \<and>
   turns 2 (take 3 [Submit 0, Submit 1, Submit 2, Settle 0 True]) pLimit =
     Some \<lparr> activeCount = 2, queue = [2], running = [0, 1], settled = [] \<rparr> \<and>
   settled (drain (\<lambda>s. (1, False)) 2
     \<lparr> activeCount = 2, queue = [], running = [1, 2], settled = [(0, True)] \<rparr>) =
     [(0, True), (2, False), (1, False)] \<and>
   promiseAll [0] \<lparr> activeCount = 2, queue = [], running = [1, 2], settled = [(0, True)] \<rparr>
     = AwaitReturned \<and>
   concurrency [''key-a'', ''key-b''] = 2 \<and>
   promiseAll [0..<3] (drain (\<lambda>s. (0, True)) 2 (submitAll (concurrency [''key-a'', ''key-b'']) 3)) =
     Suspended \<and>
   promiseAll [0..<3] (drain (\<lambda>s. (0, True)) 3 (submitAll (concurrency [''key-a'', ''key-b'']) 3)) =
     AwaitReturned"
proof -
  have n: "(1::int) \<le> 2" by simp
  have h: "turns 2 [Submit 0, Submit 1, Submit 2, Settle 0 True] pLimit =
     Some \<lparr> activeCount = 2, queue = [], running = [1, 2], settled = [(0, True)] \<rparr>"
    by (simp add: pLimit_def known_def enqueue_def run_def finish_def nextTask_def)
  have k: "turns 2 (take 3 [Submit 0, Submit 1, Submit 2, Settle 0 True]) pLimit =
     Some \<lparr> activeCount = 2, queue = [2], running = [0, 1], settled = [] \<rparr>"
    by (simp add: pLimit_def known_def enqueue_def run_def)
  have d: "settled (drain (\<lambda>s. (1, False)) 2
     \<lparr> activeCount = 2, queue = [], running = [1, 2], settled = [(0, True)] \<rparr>) =
     [(0, True), (2, False), (1, False)]"
    by (simp add: numeral_2_eq_2 finish_def nextTask_def)
  have p: "promiseAll [0] \<lparr> activeCount = 2, queue = [], running = [1, 2], settled = [(0, True)] \<rparr>
     = AwaitReturned"
    by (simp add: promiseAll_def)
  note T = executor_bounded_and_live [OF n h]
  note T4 = T[THEN conjunct2, THEN conjunct2, THEN conjunct2, THEN conjunct1, rule_format]
  note T7 = T[THEN conjunct2, THEN conjunct2, THEN conjunct2, THEN conjunct2, THEN conjunct2,
              THEN conjunct2, THEN conjunct1, rule_format]
  have c: "concurrency [''key-a'', ''key-b''] = 2"
    using T4[where keys = "[''key-a'', ''key-b'']"] by simp
  have a: "promiseAll [0..<3] (drain (\<lambda>s. (0, True)) 2 (submitAll (concurrency [''key-a'', ''key-b'']) 3)) =
     Suspended"
    using T7[where j = 2 and n = 3 and keys = "[''key-a'', ''key-b'']" and sched = "\<lambda>s. 0"] by simp
  have b: "promiseAll [0..<3] (drain (\<lambda>s. (0, True)) 3 (submitAll (concurrency [''key-a'', ''key-b'']) 3)) =
     AwaitReturned"
    using T7[where j = 3 and n = 3 and keys = "[''key-a'', ''key-b'']" and sched = "\<lambda>s. 0"] by simp
  show ?thesis
    by (intro conjI) (fact n, fact h, fact k, fact d, fact p, fact c, fact a, fact b)
qed

theorem nonpositive_limit_starts_nothing_witness:
  "(0::int) \<le> 0 \<and>
   turns 0 [Submit 0, Submit 1] pLimit =
     Some \<lparr> activeCount = 0, queue = [0, 1], running = [], settled = [] \<rparr> \<and>
   drain (\<lambda>s. (0, True)) 5 \<lparr> activeCount = 0, queue = [0, 1], running = [], settled = [] \<rparr> =
     \<lparr> activeCount = 0, queue = [0, 1], running = [], settled = [] \<rparr> \<and>
   concurrency [] = 1"
proof -
  have n: "(0::int) \<le> 0" by simp
  have h: "turns 0 [Submit 0, Submit 1] pLimit =
     Some \<lparr> activeCount = 0, queue = [0, 1], running = [], settled = [] \<rparr>"
    by (simp add: pLimit_def known_def enqueue_def)
  have c: "concurrency [] = 1" by (simp add: concurrency_def)
  show ?thesis using n h c nonpositive_limit_starts_nothing [OF n h] by simp
qed

section \<open>Properties of the rate-limit test\<close>

lemma startsWith_iff: "startsWith s t \<longleftrightarrow> (\<exists>ss. s = t @ ss)"
  by (induction s t rule: startsWith.induct) auto

lemma str_includes_iff: "str_includes s t \<longleftrightarrow> containsSubstring s t"
proof (induction s)
  case Nil
  then show ?case by (auto simp: containsSubstring_def)
next
  case (Cons c cs)
  show ?case
  proof
    assume "str_includes (c # cs) t"
    then consider "startsWith (c # cs) t" | "str_includes cs t" by auto
    then show "containsSubstring (c # cs) t"
    proof cases
      case 1
      then obtain ss where "c # cs = t @ ss" by (auto simp: startsWith_iff)
      then have "c # cs = [] @ t @ ss" by simp
      then show ?thesis unfolding containsSubstring_def by blast
    next
      case 2
      with Cons.IH obtain ps ss where "cs = ps @ t @ ss" by (auto simp: containsSubstring_def)
      then have "c # cs = (c # ps) @ t @ ss" by simp
      then show ?thesis unfolding containsSubstring_def by blast
    qed
  next
    assume "containsSubstring (c # cs) t"
    then obtain ps ss where e: "c # cs = ps @ t @ ss" by (auto simp: containsSubstring_def)
    show "str_includes (c # cs) t"
    proof (cases ps)
      case Nil
      with e have "startsWith (c # cs) t" by (auto simp: startsWith_iff)
      then show ?thesis by simp
    next
      case (Cons p ps')
      with e have "cs = ps' @ t @ ss" by simp
      then have "containsSubstring cs t" unfolding containsSubstring_def by blast
      with Cons.IH show ?thesis by simp
    qed
  qed
qed

lemma sameLetter_lower:
  assumes "\<not> isUpper b"
  shows "sameLetter a b \<longleftrightarrow> lowerChar a = b"
proof (cases "isUpper a")
  case True
  then have r: "(of_char a :: nat) + 32 < 256" by (simp add: isUpper_def)
  have "char_of ((of_char a :: nat) + 32) = b \<longleftrightarrow> (of_char b :: nat) = of_char a + 32"
  proof
    assume "char_of ((of_char a :: nat) + 32) = b"
    then have "(of_char b :: nat) = (of_char a + 32) mod 256" by auto
    with r show "(of_char b :: nat) = of_char a + 32" by simp
  next
    assume "(of_char b :: nat) = of_char a + 32"
    then have "char_of (of_char b :: nat) = char_of ((of_char a :: nat) + 32)" by simp
    then show "char_of ((of_char a :: nat) + 32) = b" by simp
  qed
  moreover have "a \<noteq> b" using True assms by auto
  ultimately show ?thesis using True assms by (simp add: sameLetter_def lowerChar_def)
next
  case False
  then show ?thesis using assms by (auto simp: sameLetter_def lowerChar_def)
qed

lemma list_all2_sameLetter:
  "\<forall>b\<in>set t. \<not> isUpper b \<Longrightarrow> list_all2 sameLetter w t \<longleftrightarrow> map lowerChar w = t"
proof (induction t arbitrary: w)
  case Nil
  then show ?case by simp
next
  case (Cons b t)
  then show ?case by (cases w) (auto simp: sameLetter_lower)
qed

lemma containsIgnoreCase_lower:
  assumes "\<forall>b\<in>set t. \<not> isUpper b"
  shows "containsIgnoreCase s t \<longleftrightarrow> containsSubstring (toLowerCase s) t"
proof
  assume "containsIgnoreCase s t"
  then obtain ps w ss where s: "s = ps @ w @ ss" and w: "list_all2 sameLetter w t"
    by (auto simp: containsIgnoreCase_def)
  from w assms have "map lowerChar w = t" by (simp add: list_all2_sameLetter)
  with s have "toLowerCase s = map lowerChar ps @ t @ map lowerChar ss"
    by (simp add: toLowerCase_def)
  then show "containsSubstring (toLowerCase s) t" unfolding containsSubstring_def by blast
next
  assume "containsSubstring (toLowerCase s) t"
  then obtain ps' ss' where "map lowerChar s = ps' @ t @ ss'"
    by (auto simp: containsSubstring_def toLowerCase_def)
  from iffD1[OF map_eq_append_conv this]
  obtain ps r where s1: "s = ps @ r" and r: "t @ ss' = map lowerChar r"
    by blast
  from iffD1[OF map_eq_append_conv r[symmetric]]
  obtain w ss where s2: "r = w @ ss" and w: "t = map lowerChar w"
    by blast
  note w = w[symmetric]
  from w assms have "list_all2 sameLetter w t" by (simp add: list_all2_sameLetter)
  with s1 s2 show "containsIgnoreCase s t" unfolding containsIgnoreCase_def by blast
qed

lemma quota_lower: "\<forall>b\<in>set ''quota''. \<not> isUpper b"
  by (simp add: isUpper_def)

lemma isRateLimit_iff:
  "isRateLimit m \<longleftrightarrow> containsSubstring m ''429'' \<or> containsIgnoreCase m ''quota''"
proof -
  have "m = [] \<Longrightarrow> \<not> containsSubstring m ''429''" by (simp add: containsSubstring_def)
  moreover have "m = [] \<Longrightarrow> \<not> containsIgnoreCase m ''quota''"
    by (simp add: containsIgnoreCase_def)
  ultimately show ?thesis
    by (auto simp: isRateLimit_def str_includes_iff containsIgnoreCase_lower[OF quota_lower])
qed

section \<open>Properties of the retry loop\<close>

lemma retryLoop_step:
  "attempt \<le> 3 \<Longrightarrow> retryLoop lookup rnd attempt n ds =
     (case lookup n of
        Inr kgResult \<Rightarrow> \<lparr> calls = Suc n, delays = ds, ended = Inr kgResult \<rparr>
      | Inl message \<Rightarrow>
          if isRateLimit message \<and> attempt < 3 then
            retryLoop lookup rnd (Suc attempt) (Suc n)
              (ds @ [backoffDelay (Suc attempt) + retryJitter (rnd (Suc attempt))])
          else \<lparr> calls = Suc n, delays = ds, ended = Inl message \<rparr>)"
  by (subst retryLoop.simps) (auto simp: MAX_RETRIES_def split: sum.splits)

lemma retryLoop_shape:
  "a \<le> 3 \<Longrightarrow>
   (let log = retryLoop lookup rnd a a ds in
      a < calls log \<and> calls log \<le> 4 \<and>
      delays log = ds @ map (\<lambda>k. backoffDelay (Suc k) + retryJitter (rnd (Suc k))) [a..<calls log - 1] \<and>
      ended log = lookup (calls log - 1) \<and>
      (\<forall>k. a \<le> k \<and> k < calls log - 1 \<longrightarrow> (\<exists>m. lookup k = Inl m \<and> isRateLimit m)) \<and>
      (\<forall>m. ended log = Inl m \<and> isRateLimit m \<longrightarrow> calls log = 4))"
proof (induction "3 - a" arbitrary: a ds)
  case 0
  then have a: "a = 3" by simp
  show ?case
    by (auto simp: a retryLoop_step[of 3] Let_def split: sum.splits)
next
  case (Suc d)
  then have a: "a < 3" and d: "d = 3 - Suc a" and sa: "Suc a \<le> 3" by auto
  note ih = Suc.hyps(1)[OF d sa, unfolded Let_def]
  show ?case
  proof (cases "lookup a")
    case (Inr r)
    then show ?thesis using a by (auto simp: retryLoop_step Let_def)
  next
    case (Inl m)
    show ?thesis
    proof (cases "isRateLimit m")
      case False
      then show ?thesis using a Inl by (auto simp: retryLoop_step Let_def)
    next
      case True
      let ?ds = "ds @ [backoffDelay (Suc a) + retryJitter (rnd (Suc a))]"
      let ?log = "retryLoop lookup rnd (Suc a) (Suc a) ?ds"
      have e: "retryLoop lookup rnd a a ds = ?log"
        using a Inl True by (simp add: retryLoop_step)
      have h1: "Suc a < calls ?log" "calls ?log \<le> 4"
        and h2: "delays ?log = ?ds @ map (\<lambda>k. backoffDelay (Suc k) + retryJitter (rnd (Suc k))) [Suc a..<calls ?log - 1]"
        and h3: "ended ?log = lookup (calls ?log - 1)"
        and h4: "\<forall>k. Suc a \<le> k \<and> k < calls ?log - 1 \<longrightarrow> (\<exists>m. lookup k = Inl m \<and> isRateLimit m)"
        and h5: "\<forall>m. ended ?log = Inl m \<and> isRateLimit m \<longrightarrow> calls ?log = 4"
        using ih[of ?ds] by blast+
      have up: "[a..<calls ?log - 1] = a # [Suc a..<calls ?log - 1]"
        using h1(1) by (simp add: upt_conv_Cons)
      have g2: "delays ?log = ds @ map (\<lambda>k. backoffDelay (Suc k) + retryJitter (rnd (Suc k))) [a..<calls ?log - 1]"
        unfolding up h2 by simp
      have g4: "\<forall>k. a \<le> k \<and> k < calls ?log - 1 \<longrightarrow> (\<exists>m. lookup k = Inl m \<and> isRateLimit m)"
      proof (intro allI impI)
        fix k assume k: "a \<le> k \<and> k < calls ?log - 1"
        show "\<exists>m. lookup k = Inl m \<and> isRateLimit m"
        proof (cases "k = a")
          case True
          then show ?thesis using Inl \<open>isRateLimit m\<close> by simp
        next
          case False
          with k have "Suc a \<le> k \<and> k < calls ?log - 1" by simp
          with h4 show ?thesis by blast
        qed
      qed
      have g1: "a < calls ?log" using h1(1) by simp
      show ?thesis unfolding e Let_def
        using g1 h1(2) g2 h3 g4 h5 by blast
    qed
  qed
qed


lemma cs_db_countCompleted: "cs_db (countCompleted cv st) = cs_db st"
  by (simp add: countCompleted_def)

lemma length_updateItem: "length (batchItems (updateItem i f db)) = length (batchItems db)"
  by (simp add: updateItem_def)

lemma nth_updateItem:
  "j < length (batchItems db) \<Longrightarrow>
   batchItems (updateItem i f db) ! j = (if j = i then f (batchItems db ! j) else batchItems db ! j)"
  by (simp add: updateItem_def)

lemma processTask_failed:
  assumes "\<not> truthy (kgId (data it))"
    and "ended (taskAttempts w ev (cv_chunkIndex cv) idx (data it)) = Inl m"
  shows "cs_db (processTask w ev cv idx (i, it) st) =
         updateItem i (\<lambda>d. d\<lparr> itemStatus := ItemFAILED, itemError := Some m \<rparr>) (cs_db st)"
  using assms by (simp add: processTask_def cs_db_countCompleted)

lemma retryLoop_retries:
  "a + j \<le> 3 \<Longrightarrow>
   list_all (\<lambda>k. case lookup (n + k) of Inl m \<Rightarrow> isRateLimit m | Inr v \<Rightarrow> False) [0..<j] \<Longrightarrow>
   retryLoop lookup rnd a n ds =
     retryLoop lookup rnd (a + j) (n + j)
       (ds @ map (\<lambda>k. backoffDelay (Suc (a + k)) + retryJitter (rnd (Suc (a + k)))) [0..<j])"
proof (induction j)
  case 0
  then show ?case by simp
next
  case (Suc j)
  let ?ds = "ds @ map (\<lambda>k. backoffDelay (Suc (a + k)) + retryJitter (rnd (Suc (a + k)))) [0..<j]"
  from Suc.prems have pre: "a + j \<le> 3"
    and all: "list_all (\<lambda>k. case lookup (n + k) of Inl m \<Rightarrow> isRateLimit m | Inr v \<Rightarrow> False) [0..<j]"
    and last: "case lookup (n + j) of Inl m \<Rightarrow> isRateLimit m | Inr v \<Rightarrow> False"
    by simp_all
  from last obtain m where m: "lookup (n + j) = Inl m" "isRateLimit m"
    by (cases "lookup (n + j)") auto
  have lt: "a + j < 3" using Suc.prems(1) by simp
  have "retryLoop lookup rnd a n ds = retryLoop lookup rnd (a + j) (n + j) ?ds"
    by (rule Suc.IH[OF pre all])
  also have "\<dots> = retryLoop lookup rnd (Suc (a + j)) (Suc (n + j))
       (?ds @ [backoffDelay (Suc (a + j)) + retryJitter (rnd (Suc (a + j)))])"
    using m lt pre by (simp add: retryLoop_step)
  finally show ?case by simp
qed

lemma retryLoop_ends:
  "a \<le> 3 \<Longrightarrow> lookup n = Inr r \<Longrightarrow>
   retryLoop lookup rnd a n ds = \<lparr> calls = Suc n, delays = ds, ended = Inr r \<rparr>"
  "a \<le> 3 \<Longrightarrow> lookup n = Inl m \<Longrightarrow> \<not> isRateLimit m \<or> a = 3 \<Longrightarrow>
   retryLoop lookup rnd a n ds = \<lparr> calls = Suc n, delays = ds, ended = Inl m \<rparr>"
  by (auto simp: retryLoop_step)

lemma delay_eq:
  "backoffDelay (Suc k) + retryJitter r = 1000 * 2 ^ k + \<lfloor>toDouble (r * 1000)\<rfloor>"
  by (simp add: backoffDelay_def retryJitter_def)

lemma taskAttempts_value:
  assumes "j \<le> 3" and "rateLimitedUntil (taskLookup w ev c idx itemData) j"
    and "taskLookup w ev c idx itemData j = Inr r"
  shows "taskAttempts w ev c idx itemData =
           \<lparr> calls = Suc j,
             delays = map (\<lambda>k. 1000 * 2 ^ k + \<lfloor>toDouble (random w c idx (Suc k) * 1000)\<rfloor>) [0..<j],
             ended = Inr r \<rparr>"
proof -
  let ?L = "taskLookup w ev c idx itemData"
  have all: "list_all (\<lambda>k. case ?L (0 + k) of Inl m \<Rightarrow> isRateLimit m | Inr v \<Rightarrow> False) [0..<j]"
    using assms(2) by (simp add: rateLimitedUntil_def)
  have a: "0 + j \<le> 3" using assms(1) by simp
  show ?thesis
    unfolding taskAttempts_def retryLoop_retries[OF a all, of "random w c idx" "[]"]
    using assms(1,3) by (simp add: retryLoop_ends delay_eq)
qed

lemma taskAttempts_error:
  assumes "j \<le> 3" and "rateLimitedUntil (taskLookup w ev c idx itemData) j"
    and "taskLookup w ev c idx itemData j = Inl m" and "\<not> isRateLimit m \<or> j = 3"
  shows "taskAttempts w ev c idx itemData =
           \<lparr> calls = Suc j,
             delays = map (\<lambda>k. 1000 * 2 ^ k + \<lfloor>toDouble (random w c idx (Suc k) * 1000)\<rfloor>) [0..<j],
             ended = Inl m \<rparr>"
proof -
  let ?L = "taskLookup w ev c idx itemData"
  have all: "list_all (\<lambda>k. case ?L (0 + k) of Inl m \<Rightarrow> isRateLimit m | Inr v \<Rightarrow> False) [0..<j]"
    using assms(2) by (simp add: rateLimitedUntil_def)
  have a: "0 + j \<le> 3" using assms(1) by simp
  show ?thesis
    unfolding taskAttempts_def retryLoop_retries[OF a all, of "random w c idx" "[]"]
    using assms(1,3,4) by (simp add: retryLoop_ends delay_eq)
qed

lemma lookup_cases:
  "\<exists>j\<le>3. rateLimitedUntil lookup j \<and>
          (case lookup j of Inr r \<Rightarrow> True | Inl m \<Rightarrow> \<not> isRateLimit m \<or> j = 3)"
proof -
  let ?P = "\<lambda>k. case lookup k of Inl m \<Rightarrow> isRateLimit m | Inr v \<Rightarrow> False"
  have e: "\<not> ?P k \<Longrightarrow> (case lookup k of Inr r \<Rightarrow> True | Inl m \<Rightarrow> \<not> isRateLimit m \<or> k = 3)" for k
    by (cases "lookup k") auto
  have u: "[0..<3] = [0, 1, 2]" "[0..<2] = [0, 1]" "[0..<1] = [0]"
    by (simp_all add: upt_rec)
  show ?thesis
  proof (cases "?P 0")
    case False
    then show ?thesis using e[of 0] by (intro exI[of _ 0]) (simp add: rateLimitedUntil_def)
  next
    case p0: True
    show ?thesis
    proof (cases "?P 1")
      case False
      then show ?thesis using e[of 1] p0 by (intro exI[of _ 1]) (simp add: rateLimitedUntil_def)
    next
      case p1: True
      show ?thesis
      proof (cases "?P 2")
        case False
        then show ?thesis using e[of 2] p0 p1
          by (intro exI[of _ 2]) (simp add: rateLimitedUntil_def u)
      next
        case p2: True
        have "case lookup 3 of Inr r \<Rightarrow> True | Inl m \<Rightarrow> \<not> isRateLimit m \<or> (3::nat) = 3"
          by (cases "lookup 3") auto
        then show ?thesis using p0 p1 p2
          by (intro exI[of _ 3]) (simp add: rateLimitedUntil_def u)
      qed
    qed
  qed
qed


text \<open>
  C2. For the lookup of any item: an error counts as a rate limit exactly when its
  message contains \<^verbatim>\<open>429\<close> or, ignoring case, \<^verbatim>\<open>quota\<close>. Whatever the lookup
  answers, there is a \<open>j \<le> 3\<close> such that its first \<open>j\<close> calls throw rate-limit
  errors and call \<open>j\<close> returns a value, throws another error, or is the fourth call.
  In each case the lookup is called \<open>j + 1\<close> times, so at most \<open>1 + 3\<close> times, and
  before retry \<open>k\<close> (1 to \<open>j\<close>) the loop sleeps \<open>1000 * 2 ^ (k - 1)\<close> ms plus
  \<^verbatim>\<open>Math.floor(Math.random() * 1000)\<close> of the number drawn for that retry, which is
  in \<open>[0, 1000)\<close> for a double in \<open>[0, 1)\<close>. When call \<open>j\<close> returns a value the loop
  ends with it. When it throws an error that is not a rate limit, or \<open>j = 3\<close> and the
  retries are used up, the loop ends with that error, and the task of an item that is
  not pre-filled records the item, in its place, as FAILED with the error's message.
\<close>

theorem rate_limit_retry_then_failed:
  assumes "\<forall>k. toDouble (random w c idx k) = random w c idx k \<and>
               0 \<le> random w c idx k \<and> random w c idx k < 1"
  shows "(\<forall>m. isRateLimit m \<longleftrightarrow> containsSubstring m ''429'' \<or> containsIgnoreCase m ''quota'') \<and>
    (\<exists>j\<le>3. rateLimitedUntil (taskLookup w ev c idx itemData) j \<and>
       (case taskLookup w ev c idx itemData j of
          Inr r \<Rightarrow> True
        | Inl m \<Rightarrow> \<not> isRateLimit m \<or> j = 3)) \<and>
    (\<forall>j r. j \<le> 3 \<and> rateLimitedUntil (taskLookup w ev c idx itemData) j \<and>
       taskLookup w ev c idx itemData j = Inr r \<longrightarrow>
       taskAttempts w ev c idx itemData =
         \<lparr> calls = Suc j,
           delays = map (\<lambda>k. 1000 * 2 ^ k + \<lfloor>toDouble (random w c idx (Suc k) * 1000)\<rfloor>) [0..<j],
           ended = Inr r \<rparr>) \<and>
    (\<forall>j m. j \<le> 3 \<and> rateLimitedUntil (taskLookup w ev c idx itemData) j \<and>
       taskLookup w ev c idx itemData j = Inl m \<and> (\<not> isRateLimit m \<or> j = 3) \<longrightarrow>
       taskAttempts w ev c idx itemData =
         \<lparr> calls = Suc j,
           delays = map (\<lambda>k. 1000 * 2 ^ k + \<lfloor>toDouble (random w c idx (Suc k) * 1000)\<rfloor>) [0..<j],
           ended = Inl m \<rparr>) \<and>
    (\<forall>k. 0 \<le> \<lfloor>toDouble (random w c idx k * 1000)\<rfloor> \<and>
         \<lfloor>toDouble (random w c idx k * 1000)\<rfloor> < 1000) \<and>
    (\<forall>j m cv i it st. j \<le> 3 \<and> rateLimitedUntil (taskLookup w ev c idx itemData) j \<and>
       taskLookup w ev c idx itemData j = Inl m \<and> (\<not> isRateLimit m \<or> j = 3) \<and>
       \<not> truthy (kgId itemData) \<and> data it = itemData \<and> cv_chunkIndex cv = c \<and>
       i < length (batchItems (cs_db st)) \<longrightarrow>
       batchItems (cs_db (processTask w ev cv idx (i, it) st)) =
         (batchItems (cs_db st))
           [i := (batchItems (cs_db st) ! i)\<lparr> itemStatus := ItemFAILED, itemError := Some m \<rparr>])"
proof -
  let ?L = "taskLookup w ev c idx itemData"
  let ?A = "taskAttempts w ev c idx itemData"
  let ?D = "\<lambda>j. map (\<lambda>k. 1000 * 2 ^ k + \<lfloor>toDouble (random w c idx (Suc k) * 1000)\<rfloor>) [0..<j]"
  have c1: "\<forall>m. isRateLimit m \<longleftrightarrow> containsSubstring m ''429'' \<or> containsIgnoreCase m ''quota''"
    by (simp add: isRateLimit_iff)
  have c2: "\<exists>j\<le>3. rateLimitedUntil ?L j \<and>
       (case ?L j of Inr r \<Rightarrow> True | Inl m \<Rightarrow> \<not> isRateLimit m \<or> j = 3)"
    by (rule lookup_cases)
  have c3: "\<forall>j r. j \<le> 3 \<and> rateLimitedUntil ?L j \<and> ?L j = Inr r \<longrightarrow>
       ?A = \<lparr> calls = Suc j, delays = ?D j, ended = Inr r \<rparr>"
    using taskAttempts_value by blast
  have c4: "\<forall>j m. j \<le> 3 \<and> rateLimitedUntil ?L j \<and> ?L j = Inl m \<and> (\<not> isRateLimit m \<or> j = 3) \<longrightarrow>
       ?A = \<lparr> calls = Suc j, delays = ?D j, ended = Inl m \<rparr>"
    using taskAttempts_error by blast
  have c5: "\<forall>k. 0 \<le> \<lfloor>toDouble (random w c idx k * 1000)\<rfloor> \<and>
         \<lfloor>toDouble (random w c idx k * 1000)\<rfloor> < 1000"
  proof
    fix k
    from assms have "toDouble (random w c idx k) = random w c idx k"
      "0 \<le> random w c idx k" "random w c idx k < 1" by blast+
    from retryJitter_range[OF this]
    show "0 \<le> \<lfloor>toDouble (random w c idx k * 1000)\<rfloor> \<and>
         \<lfloor>toDouble (random w c idx k * 1000)\<rfloor> < 1000"
      by (simp add: retryJitter_def)
  qed
  have c6: "\<forall>j m cv i it st. j \<le> 3 \<and> rateLimitedUntil ?L j \<and> ?L j = Inl m \<and>
       (\<not> isRateLimit m \<or> j = 3) \<and>
       \<not> truthy (kgId itemData) \<and> data it = itemData \<and> cv_chunkIndex cv = c \<and>
       i < length (batchItems (cs_db st)) \<longrightarrow>
       batchItems (cs_db (processTask w ev cv idx (i, it) st)) =
         (batchItems (cs_db st))
           [i := (batchItems (cs_db st) ! i)\<lparr> itemStatus := ItemFAILED, itemError := Some m \<rparr>]"
  proof (intro allI impI)
    fix j m and cv :: chunk_vars and i and it :: batch_item and st :: chunk_state
    assume h: "j \<le> 3 \<and> rateLimitedUntil ?L j \<and> ?L j = Inl m \<and> (\<not> isRateLimit m \<or> j = 3) \<and>
       \<not> truthy (kgId itemData) \<and> data it = itemData \<and> cv_chunkIndex cv = c \<and>
       i < length (batchItems (cs_db st))"
    then have "?A = \<lparr> calls = Suc j, delays = ?D j, ended = Inl m \<rparr>"
      using taskAttempts_error[of j w ev c idx itemData m] by blast
    then have e: "ended (taskAttempts w ev (cv_chunkIndex cv) idx (data it)) = Inl m"
      using h by simp
    from h have nk: "\<not> truthy (kgId (data it))" by simp
    show "batchItems (cs_db (processTask w ev cv idx (i, it) st)) =
         (batchItems (cs_db st))
           [i := (batchItems (cs_db st) ! i)\<lparr> itemStatus := ItemFAILED, itemError := Some m \<rparr>]"
      using h by (simp add: processTask_failed[OF nk e] updateItem_def)
  qed
  show ?thesis
    by (intro conjI) (fact c1, fact c2, fact c3, fact c4, fact c5, fact c6)
qed

lemma quota_isRateLimit: "isRateLimit ''Quota exceeded''"
  by code_simp

lemma http429_isRateLimit: "isRateLimit ''HTTP 429''"
  by code_simp

lemma econnreset_not_isRateLimit: "\<not> isRateLimit ''ECONNRESET''"
  by code_simp

lemma quota_attempts:
  "taskAttempts quotaWorld exampleEvent 0 0 exampleItem =
     \<lparr> calls = 4, delays = [1500, 2500, 4500], ended = Inl ''Quota exceeded'' \<rparr>"
  by (simp add: taskAttempts_def taskLookup_def quotaWorld_def retryLoop.simps MAX_RETRIES_def
      quota_isRateLimit http429_isRateLimit econnreset_not_isRateLimit backoffDelay_def
      jitter_half)

lemma flaky_attempts:
  "taskAttempts flakyWorld exampleEvent 0 0 exampleItem =
     \<lparr> calls = 2, delays = [1500], ended = Inl ''ECONNRESET'' \<rparr>"
  by (simp add: taskAttempts_def taskLookup_def flakyWorld_def retryLoop.simps MAX_RETRIES_def
      quota_isRateLimit http429_isRateLimit econnreset_not_isRateLimit backoffDelay_def
      jitter_half)

lemma recovering_lookup:
  "taskLookup recoveringWorld exampleEvent 0 0 exampleItem n =
     (if n = 0 then Inl ''HTTP 429'' else Inr None)"
  by (simp add: taskLookup_def recoveringWorld_def)

lemma quota_lookup: "taskLookup quotaWorld exampleEvent 0 0 exampleItem n = Inl ''Quota exceeded''"
  by (simp add: taskLookup_def quotaWorld_def)

lemma flaky_lookup:
  "taskLookup flakyWorld exampleEvent 0 0 exampleItem n =
     (if n = 0 then Inl ''HTTP 429'' else Inl ''ECONNRESET'')"
  by (simp add: taskLookup_def flakyWorld_def)

theorem rate_limit_retry_then_failed_witness:
  "toDouble (1 / 2) = 1 / 2 \<and>
   isRateLimit ''Quota exceeded'' \<and> isRateLimit ''HTTP 429'' \<and> \<not> isRateLimit ''ECONNRESET'' \<and>
   rateLimitedUntil (taskLookup quotaWorld exampleEvent 0 0 exampleItem) 3 \<and>
   taskAttempts quotaWorld exampleEvent 0 0 exampleItem =
     \<lparr> calls = 4, delays = [1500, 2500, 4500], ended = Inl ''Quota exceeded'' \<rparr> \<and>
   batchItems (cs_db (processTask quotaWorld exampleEvent (chunkVars 0 (Some exampleBatch) 1) 0
      (0, newItem 7 exampleItem) exampleState)) =
     [(newItem 7 exampleItem)\<lparr> itemStatus := ItemFAILED, itemError := Some ''Quota exceeded'' \<rparr>] \<and>
   rateLimitedUntil (taskLookup flakyWorld exampleEvent 0 0 exampleItem) 1 \<and>
   taskAttempts flakyWorld exampleEvent 0 0 exampleItem =
     \<lparr> calls = 2, delays = [1500], ended = Inl ''ECONNRESET'' \<rparr> \<and>
   rateLimitedUntil (taskLookup recoveringWorld exampleEvent 0 0 exampleItem) 1 \<and>
   taskAttempts recoveringWorld exampleEvent 0 0 exampleItem =
     \<lparr> calls = 2, delays = [1500], ended = Inr None \<rparr>"
proof -
  note q = quota_isRateLimit and h4 = http429_isRateLimit and e = econnreset_not_isRateLimit
  have hd: "toDouble (1 / 2) = 1 / 2" by (rule half_is_double)
  have j5: "\<lfloor>toDouble 500\<rfloor> = 500"
    using jitter_half by (simp add: retryJitter_def)
  have rnd: "random quotaWorld 0 0 k = 1 / 2" "random flakyWorld 0 0 k = 1 / 2"
    "random recoveringWorld 0 0 k = 1 / 2" for k
    by (simp_all add: quotaWorld_def flakyWorld_def recoveringWorld_def)
  have rq: "\<forall>k. toDouble (random quotaWorld 0 0 k) = random quotaWorld 0 0 k \<and>
                0 \<le> random quotaWorld 0 0 k \<and> random quotaWorld 0 0 k < 1"
    by (simp add: quotaWorld_def hd)
  have rf: "\<forall>k. toDouble (random flakyWorld 0 0 k) = random flakyWorld 0 0 k \<and>
                0 \<le> random flakyWorld 0 0 k \<and> random flakyWorld 0 0 k < 1"
    by (simp add: flakyWorld_def hd)
  have rr: "\<forall>k. toDouble (random recoveringWorld 0 0 k) = random recoveringWorld 0 0 k \<and>
                0 \<le> random recoveringWorld 0 0 k \<and> random recoveringWorld 0 0 k < 1"
    by (simp add: recoveringWorld_def hd)
  have u: "[0..<3] = [0, 1, 2]" "[0..<1] = [0]" by (simp_all add: upt_rec)
  have lq: "rateLimitedUntil (taskLookup quotaWorld exampleEvent 0 0 exampleItem) 3"
    by (simp add: rateLimitedUntil_def quota_lookup q u)
  have lf: "rateLimitedUntil (taskLookup flakyWorld exampleEvent 0 0 exampleItem) 1"
    by (simp add: rateLimitedUntil_def flaky_lookup h4 u)
  have lr: "rateLimitedUntil (taskLookup recoveringWorld exampleEvent 0 0 exampleItem) 1"
    by (simp add: rateLimitedUntil_def recovering_lookup h4 u)
  note Tq = rate_limit_retry_then_failed [OF rq, of exampleEvent exampleItem]
  note Tf = rate_limit_retry_then_failed [OF rf, of exampleEvent exampleItem]
  note Tr = rate_limit_retry_then_failed [OF rr, of exampleEvent exampleItem]
  note Tq4 = Tq[THEN conjunct2, THEN conjunct2, THEN conjunct2, THEN conjunct1, rule_format]
  note Tq6 = Tq[THEN conjunct2, THEN conjunct2, THEN conjunct2, THEN conjunct2, THEN conjunct2,
                rule_format]
  note Tf4 = Tf[THEN conjunct2, THEN conjunct2, THEN conjunct2, THEN conjunct1, rule_format]
  note Tr3 = Tr[THEN conjunct2, THEN conjunct2, THEN conjunct1, rule_format]
  have aq: "taskAttempts quotaWorld exampleEvent 0 0 exampleItem =
     \<lparr> calls = 4, delays = [1500, 2500, 4500], ended = Inl ''Quota exceeded'' \<rparr>"
    using Tq4[where j = 3 and m = "''Quota exceeded''"] lq
    by (simp add: quota_lookup u rnd j5)
  have pq: "batchItems (cs_db (processTask quotaWorld exampleEvent (chunkVars 0 (Some exampleBatch) 1) 0
      (0, newItem 7 exampleItem) exampleState)) =
     [(newItem 7 exampleItem)\<lparr> itemStatus := ItemFAILED, itemError := Some ''Quota exceeded'' \<rparr>]"
  proof -
    have side: "\<not> truthy (kgId exampleItem)" "data (newItem 7 exampleItem) = exampleItem"
      "cv_chunkIndex (chunkVars 0 (Some exampleBatch) 1) = 0"
      "0 < length (batchItems (cs_db exampleState))"
      by (simp_all add: exampleItem_def truthy_def newItem_def chunkVars_def Let_def
          exampleState_def exampleDb_def)
    have "batchItems (cs_db (processTask quotaWorld exampleEvent (chunkVars 0 (Some exampleBatch) 1) 0
      (0, newItem 7 exampleItem) exampleState)) =
      (batchItems (cs_db exampleState))
        [0 := (batchItems (cs_db exampleState) ! 0)\<lparr> itemStatus := ItemFAILED,
                                                     itemError := Some ''Quota exceeded'' \<rparr>]"
      using Tq6[where j = 3 and m = "''Quota exceeded''" and i = 0 and it = "newItem 7 exampleItem"
                  and cv = "chunkVars 0 (Some exampleBatch) 1" and st = exampleState]
        lq side by (simp add: quota_lookup)
    then show ?thesis by (simp add: exampleState_def exampleDb_def)
  qed
  have af: "taskAttempts flakyWorld exampleEvent 0 0 exampleItem =
     \<lparr> calls = 2, delays = [1500], ended = Inl ''ECONNRESET'' \<rparr>"
    using Tf4[where j = 1 and m = "''ECONNRESET''"] lf e
    by (simp add: flaky_lookup u rnd j5)
  have ar: "taskAttempts recoveringWorld exampleEvent 0 0 exampleItem =
     \<lparr> calls = 2, delays = [1500], ended = Inr None \<rparr>"
    using Tr3[where j = 1 and r = None] lr
    by (simp add: recovering_lookup u rnd j5)
  show ?thesis
    by (intro conjI) (fact hd, fact q, fact h4, fact e, fact lq, fact aq, fact pq, fact lf,
        fact af, fact lr, fact ar)
qed

section \<open>Properties of the lookup\<close>

lemma fetchCatch_throws: "fetchCatch message = Inl m \<Longrightarrow> m = ''429 Rate Limit''"
  by (auto simp: fetchCatch_def split: if_splits)

lemma fetchKGResults_throws:
  "fetchKGResults fetch query apiKey pid n = Inl m \<Longrightarrow> m = ''429 Rate Limit''"
  by (auto simp: fetchKGResults_def Let_def fetchCatch_def
      split: if_splits http_outcome.splits json_body.splits option.splits)

lemma searchGoogleKGAction_throws:
  "searchGoogleKGAction fetch lbl apiKey opts = Inl m \<Longrightarrow> m = ''429 Rate Limit''"
  by (auto simp: searchGoogleKGAction_def Let_def split: if_splits sum.splits
      dest: fetchKGResults_throws)

lemma fetchKGResults_other:
  "\<forall>u. otherLookupError (fetch u) \<Longrightarrow> fetchKGResults fetch query apiKey pid n = Inr []"
proof -
  assume a: "\<forall>u. otherLookupError (fetch u)"
  have "otherLookupError (fetch u) \<Longrightarrow>
        (case fetch u of
              FetchError message \<Rightarrow> fetchCatch message
            | Response code body \<Rightarrow>
                if code = 429 then fetchCatch ''429 Rate Limit''
                else if \<not> (200 \<le> code \<and> code \<le> 299) then Inr []
                else (case body of
                        Malformed message \<Rightarrow> fetchCatch message
                      | Parsed None \<Rightarrow> Inr []
                      | Parsed (Some elements) \<Rightarrow>
                          if length elements > 0 then Inr (map toResponse elements)
                          else Inr [])) = Inr []" for u
    by (auto simp: otherLookupError_def fetchCatch_def split: http_outcome.splits json_body.splits)
  with a show ?thesis by (simp add: fetchKGResults_def Let_def)
qed

lemma searchGoogleKGAction_other:
  "\<forall>u. otherLookupError (fetch u) \<Longrightarrow> searchGoogleKGAction fetch lbl apiKey opts = Inr None"
  by (simp add: searchGoogleKGAction_def Let_def fetchKGResults_other firstOrNull_def)


section \<open>Properties of a task\<close>

lemma batchItems_updateBatch: "batchItems (updateBatch b f db) = batchItems db"
  by (simp add: updateBatch_def split: option.splits)

lemma batchItems_granularUpdate:
  "batchItems (cs_db (granularUpdate b cv st)) = batchItems (cs_db st)"
  by (simp add: granularUpdate_def Let_def writeProgress_def batchItems_updateBatch)

lemma processTask_completed:
  assumes "\<not> truthy (kgId (data it))"
    and "ended (taskAttempts w ev (cv_chunkIndex cv) idx (data it)) = Inr r"
  shows "batchItems (cs_db (processTask w ev cv idx (i, it) st)) =
         batchItems (updateItem i
           (\<lambda>d. d\<lparr> itemStatus := ItemCOMPLETED, result := Some (toFinalResult r) \<rparr>) (cs_db st))"
  using assms by (simp add: processTask_def batchItems_granularUpdate)

lemma taskAttempts_first_error:
  "taskLookup w ev c idx itemData 0 = Inl m \<Longrightarrow> \<not> isRateLimit m \<Longrightarrow>
   taskAttempts w ev c idx itemData = \<lparr> calls = 1, delays = [], ended = Inl m \<rparr>"
  by (simp add: taskAttempts_def retryLoop_step)

lemma taskAttempts_first_value:
  "taskLookup w ev c idx itemData 0 = Inr r \<Longrightarrow>
   taskAttempts w ev c idx itemData = \<lparr> calls = 1, delays = [], ended = Inr r \<rparr>"
  by (simp add: taskAttempts_def retryLoop_step)

text \<open>
  C7, as the code has it. When the first call of an item's lookup throws an error that is
  not a rate limit, the lookup is called once, nothing is slept, and the task of an item
  that is not pre-filled records it as FAILED with the error's message. The lookup the
  engine is given, \<^verbatim>\<open>searchGoogleKGAction\<close>, throws nothing but the error
  \<^verbatim>\<open>429 Rate Limit\<close>: when the requests meet a network failure, a malformed body or
  a status that is neither OK nor 429, it returns no match after one call, and the task
  records the item as COMPLETED with the empty result.
\<close>

theorem thrown_error_fails_item_swallowed_error_completes_it:
  "(\<forall>m. taskLookup w ev c idx itemData 0 = Inl m \<and> \<not> isRateLimit m \<longrightarrow>
        taskAttempts w ev c idx itemData = \<lparr> calls = 1, delays = [], ended = Inl m \<rparr>) \<and>
   (\<forall>m cv i it st. taskLookup w ev c idx itemData 0 = Inl m \<and> \<not> isRateLimit m \<and>
        \<not> truthy (kgId itemData) \<and> data it = itemData \<and> cv_chunkIndex cv = c \<and>
        i < length (batchItems (cs_db st)) \<longrightarrow>
        batchItems (cs_db (processTask w ev cv idx (i, it) st)) =
          (batchItems (cs_db st))
            [i := (batchItems (cs_db st) ! i)\<lparr> itemStatus := ItemFAILED, itemError := Some m \<rparr>]) \<and>
   (\<forall>fetch lbl apiKey opts m.
        searchGoogleKGAction fetch lbl apiKey opts = Inl m \<longrightarrow> m = ''429 Rate Limit'') \<and>
   (\<forall>net cv i it st. search w c idx 0 = searchGoogleKGAction net \<and>
        (\<forall>u. otherLookupError (net u)) \<and>
        \<not> truthy (kgId itemData) \<and> data it = itemData \<and> cv_chunkIndex cv = c \<and>
        i < length (batchItems (cs_db st)) \<longrightarrow>
        taskAttempts w ev c idx itemData = \<lparr> calls = 1, delays = [], ended = Inr None \<rparr> \<and>
        batchItems (cs_db (processTask w ev cv idx (i, it) st)) =
          (batchItems (cs_db st))
            [i := (batchItems (cs_db st) ! i)\<lparr> itemStatus := ItemCOMPLETED,
                                                result := Some EmptyObject \<rparr>])"
proof -
  have c1: "\<forall>m. taskLookup w ev c idx itemData 0 = Inl m \<and> \<not> isRateLimit m \<longrightarrow>
        taskAttempts w ev c idx itemData = \<lparr> calls = 1, delays = [], ended = Inl m \<rparr>"
    by (simp add: taskAttempts_first_error)
  have c2: "\<forall>m cv i it st. taskLookup w ev c idx itemData 0 = Inl m \<and> \<not> isRateLimit m \<and>
        \<not> truthy (kgId itemData) \<and> data it = itemData \<and> cv_chunkIndex cv = c \<and>
        i < length (batchItems (cs_db st)) \<longrightarrow>
        batchItems (cs_db (processTask w ev cv idx (i, it) st)) =
          (batchItems (cs_db st))
            [i := (batchItems (cs_db st) ! i)\<lparr> itemStatus := ItemFAILED, itemError := Some m \<rparr>]"
  proof (intro allI impI)
    fix m and cv :: chunk_vars and i and it :: batch_item and st :: chunk_state
    assume h: "taskLookup w ev c idx itemData 0 = Inl m \<and> \<not> isRateLimit m \<and>
        \<not> truthy (kgId itemData) \<and> data it = itemData \<and> cv_chunkIndex cv = c \<and>
        i < length (batchItems (cs_db st))"
    then have e: "ended (taskAttempts w ev (cv_chunkIndex cv) idx (data it)) = Inl m"
      by (simp add: taskAttempts_first_error)
    from h have nk: "\<not> truthy (kgId (data it))" by simp
    show "batchItems (cs_db (processTask w ev cv idx (i, it) st)) =
          (batchItems (cs_db st))
            [i := (batchItems (cs_db st) ! i)\<lparr> itemStatus := ItemFAILED, itemError := Some m \<rparr>]"
      using h by (simp add: processTask_failed[OF nk e] updateItem_def)
  qed
  have c3: "\<forall>fetch lbl apiKey opts m.
        searchGoogleKGAction fetch lbl apiKey opts = Inl m \<longrightarrow> m = ''429 Rate Limit''"
    using searchGoogleKGAction_throws by blast
  have c4: "\<forall>net cv i it st. search w c idx 0 = searchGoogleKGAction net \<and>
        (\<forall>u. otherLookupError (net u)) \<and>
        \<not> truthy (kgId itemData) \<and> data it = itemData \<and> cv_chunkIndex cv = c \<and>
        i < length (batchItems (cs_db st)) \<longrightarrow>
        taskAttempts w ev c idx itemData = \<lparr> calls = 1, delays = [], ended = Inr None \<rparr> \<and>
        batchItems (cs_db (processTask w ev cv idx (i, it) st)) =
          (batchItems (cs_db st))
            [i := (batchItems (cs_db st) ! i)\<lparr> itemStatus := ItemCOMPLETED,
                                                result := Some EmptyObject \<rparr>]"
  proof (intro allI impI)
    fix net and cv :: chunk_vars and i and it :: batch_item and st :: chunk_state
    assume h: "search w c idx 0 = searchGoogleKGAction net \<and>
        (\<forall>u. otherLookupError (net u)) \<and>
        \<not> truthy (kgId itemData) \<and> data it = itemData \<and> cv_chunkIndex cv = c \<and>
        i < length (batchItems (cs_db st))"
    then have l: "taskLookup w ev c idx itemData 0 = Inr None"
      by (simp add: taskLookup_def searchGoogleKGAction_other)
    then have a: "taskAttempts w ev c idx itemData = \<lparr> calls = 1, delays = [], ended = Inr None \<rparr>"
      by (rule taskAttempts_first_value)
    from h a have e: "ended (taskAttempts w ev (cv_chunkIndex cv) idx (data it)) = Inr None"
      by simp
    from h have nk: "\<not> truthy (kgId (data it))" by simp
    have "batchItems (cs_db (processTask w ev cv idx (i, it) st)) =
          (batchItems (cs_db st))
            [i := (batchItems (cs_db st) ! i)\<lparr> itemStatus := ItemCOMPLETED,
                                                result := Some EmptyObject \<rparr>]"
      using h by (simp add: processTask_completed[OF nk e] updateItem_def toFinalResult_def)
    with a show "taskAttempts w ev c idx itemData = \<lparr> calls = 1, delays = [], ended = Inr None \<rparr> \<and>
        batchItems (cs_db (processTask w ev cv idx (i, it) st)) =
          (batchItems (cs_db st))
            [i := (batchItems (cs_db st) ! i)\<lparr> itemStatus := ItemCOMPLETED,
                                                result := Some EmptyObject \<rparr>]"
      by simp
  qed
  show ?thesis using c1 c2 c3 c4 by blast
qed

lemma networkDown_other: "\<forall>u. otherLookupError (networkDown u)"
  by (simp add: networkDown_def otherLookupError_def)

lemma networkDown_attempts:
  "taskAttempts networkDownWorld exampleEvent 0 0 exampleItem =
     \<lparr> calls = 1, delays = [], ended = Inr None \<rparr>"
  by (rule taskAttempts_first_value)
     (simp add: taskLookup_def networkDownWorld_def searchGoogleKGAction_other networkDown_other)

text \<open>
  The claim fails where the network is down: the request of the one item's lookup is
  refused, and the item is recorded as COMPLETED, with the empty result and no error.
\<close>

theorem network_failure_recorded_completed:
  "networkDown (KgSearch ''Douglas Adams'' 1 ''key-a'') = FetchError ''ECONNRESET'' \<and>
   \<not> isRateLimit ''ECONNRESET'' \<and>
   taskLookup networkDownWorld exampleEvent 0 0 exampleItem 0 = Inr None \<and>
   batchItems (cs_db (processTask networkDownWorld exampleEvent (chunkVars 0 (Some exampleBatch) 1) 0
      (0, newItem 7 exampleItem) exampleState)) =
     [\<lparr> batchId = 7, data = exampleItem, result = Some EmptyObject,
        itemStatus = ItemCOMPLETED, itemError = None \<rparr>]"
proof -
  have nk: "\<not> truthy (kgId (data (newItem 7 exampleItem)))"
    by (simp add: newItem_def exampleItem_def truthy_def)
  have en: "ended (taskAttempts networkDownWorld exampleEvent
              (cv_chunkIndex (chunkVars 0 (Some exampleBatch) 1)) 0
              (data (newItem 7 exampleItem))) = Inr None"
    by (simp add: chunkVars_def Let_def newItem_def networkDown_attempts)
  have l: "taskLookup networkDownWorld exampleEvent 0 0 exampleItem 0 = Inr None"
    by (simp add: taskLookup_def networkDownWorld_def searchGoogleKGAction_other networkDown_other)
  have p: "batchItems (cs_db (processTask networkDownWorld exampleEvent
      (chunkVars 0 (Some exampleBatch) 1) 0 (0, newItem 7 exampleItem) exampleState)) =
     [\<lparr> batchId = 7, data = exampleItem, result = Some EmptyObject,
        itemStatus = ItemCOMPLETED, itemError = None \<rparr>]"
    unfolding processTask_completed[OF nk en]
    by (simp add: exampleState_def exampleDb_def updateItem_def newItem_def toFinalResult_def)
  show ?thesis using l p econnreset_not_isRateLimit by (simp add: networkDown_def)
qed

theorem thrown_error_fails_item_swallowed_error_completes_it_witness:
  "taskLookup throwingWorld exampleEvent 0 0 exampleItem 0 = Inl ''ECONNRESET'' \<and>
   \<not> isRateLimit ''ECONNRESET'' \<and>
   taskAttempts throwingWorld exampleEvent 0 0 exampleItem =
     \<lparr> calls = 1, delays = [], ended = Inl ''ECONNRESET'' \<rparr> \<and>
   batchItems (cs_db (processTask throwingWorld exampleEvent (chunkVars 0 (Some exampleBatch) 1) 0
      (0, newItem 7 exampleItem) exampleState)) =
     [\<lparr> batchId = 7, data = exampleItem, result = None,
        itemStatus = ItemFAILED, itemError = Some ''ECONNRESET'' \<rparr>] \<and>
   searchGoogleKGAction (\<lambda>u. Response 429 (Parsed None)) ''Douglas Adams'' (Some ''key-a'')
     \<lparr> opt_projectId = None, opt_qid = Some ''Q42'', opt_strictMode = False,
       opt_useQidOnly = False \<rparr> = Inl ''429 Rate Limit'' \<and>
   search networkDownWorld 0 0 0 = searchGoogleKGAction networkDown \<and>
   otherLookupError (networkDown (KgSearch ''Douglas Adams'' 1 ''key-a'')) \<and>
   taskAttempts networkDownWorld exampleEvent 0 0 exampleItem =
     \<lparr> calls = 1, delays = [], ended = Inr None \<rparr>"
proof -
  have l: "taskLookup throwingWorld exampleEvent 0 0 exampleItem 0 = Inl ''ECONNRESET''"
    by (simp add: taskLookup_def throwingWorld_def)
  note e = econnreset_not_isRateLimit
  have side: "\<not> truthy (kgId exampleItem)" "data (newItem 7 exampleItem) = exampleItem"
    "cv_chunkIndex (chunkVars 0 (Some exampleBatch) 1) = 0"
    "0 < length (batchItems (cs_db exampleState))"
    by (simp_all add: exampleItem_def truthy_def newItem_def chunkVars_def Let_def
        exampleState_def exampleDb_def)
  note T = thrown_error_fails_item_swallowed_error_completes_it
    [of throwingWorld exampleEvent 0 0 exampleItem]
  have a: "taskAttempts throwingWorld exampleEvent 0 0 exampleItem =
     \<lparr> calls = 1, delays = [], ended = Inl ''ECONNRESET'' \<rparr>"
    using T l e by blast
  have "batchItems (cs_db (processTask throwingWorld exampleEvent (chunkVars 0 (Some exampleBatch) 1) 0
      (0, newItem 7 exampleItem) exampleState)) =
      (batchItems (cs_db exampleState))
        [0 := (batchItems (cs_db exampleState) ! 0)\<lparr> itemStatus := ItemFAILED,
                                                     itemError := Some ''ECONNRESET'' \<rparr>]"
    using T l e side by blast
  then have p: "batchItems (cs_db (processTask throwingWorld exampleEvent
      (chunkVars 0 (Some exampleBatch) 1) 0 (0, newItem 7 exampleItem) exampleState)) =
     [\<lparr> batchId = 7, data = exampleItem, result = None,
        itemStatus = ItemFAILED, itemError = Some ''ECONNRESET'' \<rparr>]"
    by (simp add: exampleState_def exampleDb_def newItem_def)
  have r: "searchGoogleKGAction (\<lambda>u. Response 429 (Parsed None)) ''Douglas Adams'' (Some ''key-a'')
     \<lparr> opt_projectId = None, opt_qid = Some ''Q42'', opt_strictMode = False,
       opt_useQidOnly = False \<rparr> = Inl ''429 Rate Limit''"
    by (simp add: searchGoogleKGAction_def Let_def orEmpty_def fetchKGResults_def truthy_def
        fetchCatch_def)
  have s: "search networkDownWorld 0 0 0 = searchGoogleKGAction networkDown"
    by (simp add: networkDownWorld_def)
  have o: "otherLookupError (networkDown (KgSearch ''Douglas Adams'' 1 ''key-a''))"
    using networkDown_other by blast
  note T' = thrown_error_fails_item_swallowed_error_completes_it
    [of networkDownWorld exampleEvent 0 0 exampleItem]
  have n: "taskAttempts networkDownWorld exampleEvent 0 0 exampleItem =
     \<lparr> calls = 1, delays = [], ended = Inr None \<rparr>"
    using T' s networkDown_other side by blast
  show ?thesis using l e a p r s o n by blast
qed

section \<open>Properties of the upload\<close>





lemma bulkWrite_append: "bulkWrite (xs @ ys) docs = bulkWrite ys (bulkWrite xs docs)"
  by (simp add: bulkWrite_def)






section \<open>Properties of the status operations\<close>

lemma batchStatusOf_updateBatch:
  "batchStatusOf b (updateBatch b' f db) =
     (if b = b' then map_option (\<lambda>d. status (f d)) (batches db b) else batchStatusOf b db)"
  by (auto simp: batchStatusOf_def updateBatch_def split: option.splits)

lemma status_cancelSave:
  "batches db b = Some doc \<Longrightarrow>
   batchStatusOf b (snd (cancelSave b' f db)) =
     (if b' = b \<and> (\<exists>d. f = Some d \<and> status d \<noteq> COMPLETED \<and> status d \<noteq> FAILED)
      then Some STOPPED else Some (status doc))"
  by (auto simp: cancelSave_def batchStatusOf_updateBatch split: option.splits)
     (auto simp: batchStatusOf_def)

lemma status_retrySave:
  "batches db b = Some doc \<Longrightarrow>
   batchStatusOf b (snd (retrySave b' f db)) =
     (if b' = b \<and> (\<exists>d. f = Some d \<and> status d \<noteq> COMPLETED \<and> validKeys d \<noteq> [])
      then Some PENDING else Some (status doc))"
  by (auto simp: retrySave_def batchStatusOf_updateBatch split: option.splits)
     (auto simp: batchStatusOf_def)

lemma status_uploadComplete:
  "batches db b = Some doc \<Longrightarrow>
   batchStatusOf b (snd (uploadComplete b' db)) =
     (if b' = b then Some PENDING else Some (status doc))"
  by (auto simp: uploadComplete_def batchStatusOf_updateBatch split: option.splits)
     (auto simp: batchStatusOf_def)

lemma status_initProcessing:
  "batches db b = Some doc \<Longrightarrow>
   batchStatusOf b (initProcessing b' db) =
     (if b' = b then Some PROCESSING else Some (status doc))"
  by (auto simp: initProcessing_def batchStatusOf_updateBatch) (auto simp: batchStatusOf_def)

lemma status_markCompletedWrite:
  "batches db b = Some doc \<Longrightarrow>
   batchStatusOf b (markCompletedWrite b' c db) =
     (if b' = b \<and> c \<noteq> Some STOPPED then Some COMPLETED else Some (status doc))"
  by (auto simp: markCompletedWrite_def batchStatusOf_updateBatch) (auto simp: batchStatusOf_def)

lemma status_uploadInit:
  "batches db b = Some doc \<Longrightarrow> newId \<noteq> b \<Longrightarrow>
   batchStatusOf b (uploadInit newId body db) = Some (status doc)"
  by (simp add: uploadInit_def batchStatusOf_def Let_def)

lemmas status_ops = status_cancelSave status_retrySave status_uploadComplete status_initProcessing
  status_markCompletedWrite status_uploadInit












section \<open>Properties of a chunk step\<close>

lemma batchItems_countCompleted: "batchItems (cs_db (countCompleted cv st)) = batchItems (cs_db st)"
  by (simp add: countCompleted_def)

lemma batchItems_updateItem:
  "batchItems (updateItem i f db) = (batchItems db)[i := f (batchItems db ! i)]"
  by (simp add: updateItem_def list_update_beyond)

lemma processTask_items:
  "\<exists>f. settles f \<and>
       batchItems (cs_db (processTask w ev cv idx (i, it) st)) =
         (batchItems (cs_db st))[i := f (batchItems (cs_db st) ! i)]"
proof (cases "truthy (kgId (data it))")
  case True
  have "settles (\<lambda>d. d\<lparr> itemStatus := ItemCOMPLETED \<rparr>)" by (simp add: settles_def)
  moreover have "batchItems (cs_db (processTask w ev cv idx (i, it) st)) =
         (batchItems (cs_db st))[i := (batchItems (cs_db st) ! i)\<lparr> itemStatus := ItemCOMPLETED \<rparr>]"
    using True by (simp add: processTask_def batchItems_countCompleted batchItems_updateItem)
  ultimately show ?thesis by blast
next
  case False
  show ?thesis
  proof (cases "ended (taskAttempts w ev (cv_chunkIndex cv) idx (data it))")
    case (Inl m)
    have "settles (\<lambda>d. d\<lparr> itemStatus := ItemFAILED, itemError := Some m \<rparr>)"
      by (simp add: settles_def)
    moreover have "batchItems (cs_db (processTask w ev cv idx (i, it) st)) =
         (batchItems (cs_db st))[i := (batchItems (cs_db st) ! i)
            \<lparr> itemStatus := ItemFAILED, itemError := Some m \<rparr>]"
      by (simp add: processTask_failed[OF False Inl] batchItems_updateItem)
    ultimately show ?thesis by blast
  next
    case (Inr r)
    have "settles (\<lambda>d. d\<lparr> itemStatus := ItemCOMPLETED, result := Some (toFinalResult r) \<rparr>)"
      by (simp add: settles_def)
    moreover have "batchItems (cs_db (processTask w ev cv idx (i, it) st)) =
         (batchItems (cs_db st))[i := (batchItems (cs_db st) ! i)
            \<lparr> itemStatus := ItemCOMPLETED, result := Some (toFinalResult r) \<rparr>]"
      by (simp add: processTask_completed[OF False Inr] batchItems_updateItem)
    ultimately show ?thesis by blast
  qed
qed

lemma runTasks_snoc:
  "runTasks w ev cv items (order @ [idx]) st =
     processTask w ev cv idx (items ! idx) (runTasks w ev cv items order st)"
  by (simp add: runTasks_def)

lemma runTasks_items:
  "length (batchItems (cs_db (runTasks w ev cv items order st))) = length (batchItems (cs_db st)) \<and>
   (\<forall>j. j \<notin> (\<lambda>idx. fst (items ! idx)) ` set order \<longrightarrow>
        batchItems (cs_db (runTasks w ev cv items order st)) ! j = batchItems (cs_db st) ! j) \<and>
   (\<forall>j < length (batchItems (cs_db st)).
        batchId (batchItems (cs_db (runTasks w ev cv items order st)) ! j) =
          batchId (batchItems (cs_db st) ! j) \<and>
        data (batchItems (cs_db (runTasks w ev cv items order st)) ! j) =
          data (batchItems (cs_db st) ! j) \<and>
        (itemStatus (batchItems (cs_db (runTasks w ev cv items order st)) ! j) = ItemPENDING \<longleftrightarrow>
           j \<notin> (\<lambda>idx. fst (items ! idx)) ` set order \<and>
           itemStatus (batchItems (cs_db st) ! j) = ItemPENDING))"
proof (induction order rule: rev_induct)
  case Nil
  then show ?case by (simp add: runTasks_def)
next
  case (snoc idx order)
  let ?st1 = "runTasks w ev cv items order st"
  let ?i = "fst (items ! idx)"
  obtain f where f: "settles f"
    and e: "batchItems (cs_db (processTask w ev cv idx (?i, snd (items ! idx)) ?st1)) =
         (batchItems (cs_db ?st1))[?i := f (batchItems (cs_db ?st1) ! ?i)]"
    using processTask_items by blast
  have e': "batchItems (cs_db (runTasks w ev cv items (order @ [idx]) st)) =
         (batchItems (cs_db ?st1))[?i := f (batchItems (cs_db ?st1) ! ?i)]"
    using e by (simp add: runTasks_snoc)
  have len: "length (batchItems (cs_db ?st1)) = length (batchItems (cs_db st))"
    using snoc.IH by blast
  show ?case
  proof (intro conjI allI impI)
    show "length (batchItems (cs_db (runTasks w ev cv items (order @ [idx]) st))) =
          length (batchItems (cs_db st))"
      using len by (simp add: e')
  next
    fix j assume "j \<notin> (\<lambda>idx. fst (items ! idx)) ` set (order @ [idx])"
    then have "j \<noteq> ?i" "j \<notin> (\<lambda>idx. fst (items ! idx)) ` set order" by auto
    then show "batchItems (cs_db (runTasks w ev cv items (order @ [idx]) st)) ! j =
               batchItems (cs_db st) ! j"
      using snoc.IH by (simp add: e')
  next
    fix j assume j: "j < length (batchItems (cs_db st))"
    show "batchId (batchItems (cs_db (runTasks w ev cv items (order @ [idx]) st)) ! j) =
          batchId (batchItems (cs_db st) ! j)"
      using snoc.IH j len f by (cases "j = ?i") (auto simp: e' settles_def)
    show "data (batchItems (cs_db (runTasks w ev cv items (order @ [idx]) st)) ! j) =
          data (batchItems (cs_db st) ! j)"
      using snoc.IH j len f by (cases "j = ?i") (auto simp: e' settles_def)
    show "(itemStatus (batchItems (cs_db (runTasks w ev cv items (order @ [idx]) st)) ! j) = ItemPENDING) =
          (j \<notin> (\<lambda>idx. fst (items ! idx)) ` set (order @ [idx]) \<and>
           itemStatus (batchItems (cs_db st) ! j) = ItemPENDING)"
      using snoc.IH j len f by (cases "j = ?i") (auto simp: e' settles_def)
  qed
qed


lemma findPending_facts:
  "i \<in> set (findPending b docs) \<Longrightarrow>
   i < length docs \<and> batchId (docs ! i) = b \<and> itemStatus (docs ! i) = ItemPENDING"
  by (auto simp: findPending_def dest: in_set_takeD)

lemma distinct_findPending: "distinct (findPending b docs)"
  by (simp add: findPending_def)

lemma length_findPending: "length (findPending b docs) \<le> BATCH_SIZE"
  by (simp add: findPending_def)

lemma set_completionOrder: "set (completionOrder (concurrency keys) n sched) = {0..<n}"
  using mset_completionOrder[OF concurrency_ge_1, of keys n sched, THEN mset_eq_setD] by simp

lemma fetched_image:
  "(\<lambda>idx. fst (map (\<lambda>i. (i, docs ! i)) ids ! idx)) ` {0..<length ids} = set ids"
proof -
  have "(\<lambda>idx. fst (map (\<lambda>i. (i, docs ! i)) ids ! idx)) ` {0..<length ids} = (\<lambda>idx. ids ! idx) ` {0..<length ids}"
    by (rule image_cong) auto
  also have "\<dots> = set ids" by (auto simp: set_conv_nth)
  finally show ?thesis .
qed

lemma batchesProgressOnly_refl: "batchesProgressOnly m m"
  by (simp add: batchesProgressOnly_def progressOnly_def split: option.splits)

lemma progressOnly_trans: "progressOnly a b \<Longrightarrow> progressOnly b c \<Longrightarrow> progressOnly a c"
  by (cases a; cases b; cases c) (simp add: progressOnly_def)


lemma batchesProgressOnly_trans:
  "batchesProgressOnly m1 m2 \<Longrightarrow> batchesProgressOnly m2 m3 \<Longrightarrow> batchesProgressOnly m1 m3"
  unfolding batchesProgressOnly_def
proof (intro allI)
  fix b
  assume a: "\<forall>b. case m1 b of None \<Rightarrow> m2 b = None
               | Some d \<Rightarrow> (case m2 b of None \<Rightarrow> False | Some d' \<Rightarrow> progressOnly d d')"
    and c: "\<forall>b. case m2 b of None \<Rightarrow> m3 b = None
               | Some d \<Rightarrow> (case m3 b of None \<Rightarrow> False | Some d' \<Rightarrow> progressOnly d d')"
  from a[rule_format, of b] c[rule_format, of b]
  show "case m1 b of None \<Rightarrow> m3 b = None
               | Some d \<Rightarrow> (case m3 b of None \<Rightarrow> False | Some d' \<Rightarrow> progressOnly d d')"
    by (auto split: option.splits intro: progressOnly_trans)
qed

lemma batchesProgressOnly_updateBatch:
  "batchesProgressOnly (batches db)
     (batches (updateBatch b (\<lambda>d. d\<lparr> processedCount := n, progress := p \<rparr>) db))"
  by (auto simp: batchesProgressOnly_def updateBatch_def progressOnly_def split: option.splits)

lemma batches_updateItem: "batches (updateItem i f db) = batches db"
  by (simp add: updateItem_def)

lemma batches_countCompleted: "batches (cs_db (countCompleted cv st)) = batches (cs_db st)"
  by (simp add: countCompleted_def)

lemma batchesProgressOnly_granularUpdate:
  "batchesProgressOnly (batches (cs_db st)) (batches (cs_db (granularUpdate b cv st)))"
  by (simp add: granularUpdate_def Let_def writeProgress_def batchesProgressOnly_refl
      batchesProgressOnly_updateBatch)

lemma batchesProgressOnly_processTask:
  "batchesProgressOnly (batches (cs_db st)) (batches (cs_db (processTask w ev cv idx dbItem st)))"
proof -
  have g: "batchesProgressOnly (batches (cs_db st))
             (batches (cs_db (granularUpdate b cv (st\<lparr> cs_db := updateItem i f (cs_db st) \<rparr>))))" for b i f
    using batchesProgressOnly_granularUpdate[of "st\<lparr> cs_db := updateItem i f (cs_db st) \<rparr>" b cv]
    by (simp add: batches_updateItem)
  show ?thesis
    by (simp add: processTask_def Let_def batches_countCompleted batches_updateItem
        batchesProgressOnly_refl g split: sum.splits)
qed

lemma batchesProgressOnly_runTasks:
  "batchesProgressOnly (batches (cs_db st)) (batches (cs_db (runTasks w ev cv items order st)))"
proof (induction order rule: rev_induct)
  case Nil
  then show ?case by (simp add: runTasks_def batchesProgressOnly_refl)
next
  case (snoc idx order)
  show ?case
    unfolding runTasks_snoc
    by (rule batchesProgressOnly_trans[OF snoc.IH batchesProgressOnly_processTask])
qed


lemma batchItems_writeProgress: "batchItems (cs_db (writeProgress b n p st)) = batchItems (cs_db st)"
  by (simp add: writeProgress_def batchItems_updateBatch)

lemma batchItems_syncProgress: "batchItems (cs_db (syncProgress b st)) = batchItems (cs_db st)"
  by (simp add: syncProgress_def Let_def batchItems_writeProgress)

lemma batchesProgressOnly_syncProgress:
  "batchesProgressOnly (batches (cs_db st)) (batches (cs_db (syncProgress b st)))"
  by (simp add: syncProgress_def Let_def writeProgress_def batchesProgressOnly_updateBatch)

lemma runChunk_items:
  assumes "ids = findPending b docs" and "docs = batchItems db"
  shows "length (batchItems (cs_db (runChunk w ev k db ids))) = length docs \<and>
   (\<forall>j. j \<notin> set ids \<longrightarrow> batchItems (cs_db (runChunk w ev k db ids)) ! j = docs ! j) \<and>
   (\<forall>j < length docs.
        batchId (batchItems (cs_db (runChunk w ev k db ids)) ! j) = batchId (docs ! j) \<and>
        data (batchItems (cs_db (runChunk w ev k db ids)) ! j) = data (docs ! j) \<and>
        (itemStatus (batchItems (cs_db (runChunk w ev k db ids)) ! j) = ItemPENDING \<longleftrightarrow>
           j \<notin> set ids \<and> itemStatus (docs ! j) = ItemPENDING))"
proof -
  let ?items = "map (\<lambda>i. (i, batchItems db ! i)) ids"
  let ?order = "completionOrder (concurrency (ev_validKeys ev)) (length ?items) (schedule w k)"
  have img: "(\<lambda>idx. fst (?items ! idx)) ` set ?order = set ids"
    using fetched_image[of "batchItems db" ids] by (simp add: set_completionOrder)
  show ?thesis
    using runTasks_items[of w ev "chunkVars k (batches db (ev_batchId ev)) (length ?items)" ?items ?order
        "\<lparr> cs_db = db, itemsCompletedInChunk = 0, progressWrites = [] \<rparr>"]
    unfolding img by (simp add: runChunk_def Let_def assms(2))
qed

lemma batchesProgressOnly_runChunk:
  "batchesProgressOnly (batches db) (batches (cs_db (runChunk w ev k db ids)))"
  using batchesProgressOnly_runTasks[of "\<lparr> cs_db = db, itemsCompletedInChunk = 0, progressWrites = [] \<rparr>"]
  by (simp add: runChunk_def Let_def)

lemma processChunk_items:
  "length (batchItems (fst (processChunk w ev k db))) = length (batchItems db) \<and>
   (\<forall>j. j \<notin> set (findPending (ev_batchId ev) (batchItems db)) \<longrightarrow>
        batchItems (fst (processChunk w ev k db)) ! j = batchItems db ! j) \<and>
   (\<forall>j < length (batchItems db).
        batchId (batchItems (fst (processChunk w ev k db)) ! j) = batchId (batchItems db ! j) \<and>
        data (batchItems (fst (processChunk w ev k db)) ! j) = data (batchItems db ! j) \<and>
        (itemStatus (batchItems (fst (processChunk w ev k db)) ! j) = ItemPENDING \<longleftrightarrow>
           j \<notin> set (findPending (ev_batchId ev) (batchItems db)) \<and>
           itemStatus (batchItems db ! j) = ItemPENDING))"
proof (cases "findPending (ev_batchId ev) (batchItems db) = []")
  case True
  then show ?thesis by (simp add: processChunk_def)
next
  case False
  then have e: "batchItems (fst (processChunk w ev k db)) =
     batchItems (cs_db (runChunk w ev k db (findPending (ev_batchId ev) (batchItems db))))"
    by (simp add: processChunk_def Let_def batchItems_syncProgress)
  show ?thesis unfolding e by (rule runChunk_items[OF refl refl])
qed

lemma batchesProgressOnly_processChunk:
  "batchesProgressOnly (batches db) (batches (fst (processChunk w ev k db)))"
proof (cases "findPending (ev_batchId ev) (batchItems db) = []")
  case True
  then show ?thesis by (simp add: processChunk_def batchesProgressOnly_refl)
next
  case False
  then show ?thesis
    using batchesProgressOnly_trans[OF batchesProgressOnly_runChunk batchesProgressOnly_syncProgress]
    by (simp add: processChunk_def Let_def)
qed

lemma batchStatusOf_progressOnly:
  "batchesProgressOnly (batches db) (batches db') \<Longrightarrow> batchStatusOf b db' = batchStatusOf b db"
proof -
  assume "batchesProgressOnly (batches db) (batches db')"
  then have "case batches db b of None \<Rightarrow> batches db' b = None
               | Some d \<Rightarrow> (case batches db' b of None \<Rightarrow> False | Some d' \<Rightarrow> progressOnly d d')"
    unfolding batchesProgressOnly_def by blast
  then show ?thesis
    by (cases "batches db b"; cases "batches db' b")
       (auto simp: batchStatusOf_def progressOnly_def, metis batch.select_convs(1) batch.surjective batch.update_convs(2,6))
qed

lemma batchStatusOf_processChunk:
  "batchStatusOf b (fst (processChunk w ev k db)) = batchStatusOf b db"
  by (rule batchStatusOf_progressOnly[OF batchesProgressOnly_processChunk])

section \<open>Properties of the driver\<close>

lemma findPending_take: "findPending b docs = take BATCH_SIZE (pendingIds b docs)"
  by (simp add: findPending_def pendingIds_def)

lemma chunkSteps_append: "chunkSteps (xs @ ys) = chunkSteps xs + chunkSteps ys"
  by (induction xs rule: chunkSteps.induct) auto

lemma haltsAtStopped_split:
  "haltsAtStopped (pre @ CheckStatus k (Some STOPPED) # post) \<Longrightarrow> post = []"
  by (induction pre rule: haltsAtStopped.induct) auto

lemma haltsAtStopped_step:
  "s \<noteq> Some STOPPED \<Longrightarrow> haltsAtStopped ext \<Longrightarrow>
   haltsAtStopped (CheckStatus k s # ProcessChunk k n h ws # ext)"
  by (cases s; cases "the s") auto

lemma driverLoop_stopped:
  "batchStatusOf (ev_batchId ev) (interfere w (BeforeCheck k) db) = Some STOPPED \<Longrightarrow>
   driverLoop w ev k db tr =
     (interfere w (BeforeCheck k) db, tr @ [CheckStatus k (Some STOPPED)])"
  by (subst driverLoop.simps) (simp add: Let_def)

lemma driverLoop_trace:
  "\<exists>ext. snd (driverLoop w ev k db tr) = tr @ ext \<and> haltsAtStopped ext \<and>
         chunkSteps ext \<le> Suc (CHUNK_CEILING - k)"
proof (induction w ev k db tr rule: driverLoop.induct)
  case (1 w ev k db tr)
  let ?db1 = "interfere w (BeforeCheck k) db"
  let ?s = "batchStatusOf (ev_batchId ev) ?db1"
  show ?case
  proof (cases "?s = Some STOPPED")
    case True
    then have "snd (driverLoop w ev k db tr) = tr @ [CheckStatus k (Some STOPPED)]"
      by (simp add: driverLoop_stopped)
    then show ?thesis by simp
  next
    case False
    let ?r = "processChunk w ev k (interfere w (BeforeChunk k) ?db1)"
    let ?c = "ProcessChunk k (processed (fst (snd ?r))) (hasMore (fst (snd ?r))) (snd (snd ?r))"
    let ?tr' = "tr @ [CheckStatus k ?s, ?c]"
    show ?thesis
    proof (cases "hasMore (fst (snd ?r)) \<and> \<not> Suc k > CHUNK_CEILING")
      case True
      have e: "driverLoop w ev k db tr = driverLoop w ev (Suc k) (fst ?r) ?tr'"
        using False True by (subst driverLoop.simps) (simp add: Let_def)
      from "1.IH"[OF refl refl False refl refl] True
      obtain ext where x: "snd (driverLoop w ev (Suc k) (fst ?r) ?tr') = ?tr' @ ext"
        and h: "haltsAtStopped ext" and c: "chunkSteps ext \<le> Suc (CHUNK_CEILING - Suc k)"
        by blast
      have "snd (driverLoop w ev k db tr) = tr @ (CheckStatus k ?s # ?c # ext)"
        using x by (simp add: e)
      moreover have "haltsAtStopped (CheckStatus k ?s # ?c # ext)"
        using False h by (rule haltsAtStopped_step)
      moreover have "chunkSteps (CheckStatus k ?s # ?c # ext) \<le> Suc (CHUNK_CEILING - k)"
      proof -
        from True have "Suc k \<le> CHUNK_CEILING" by simp
        then have "Suc (CHUNK_CEILING - Suc k) = CHUNK_CEILING - k" by simp
        with c show ?thesis by simp
      qed
      ultimately show ?thesis by blast
    next
      case stop: False
      have e: "driverLoop w ev k db tr = (fst ?r, ?tr')"
        using False stop by (subst driverLoop.simps) (auto simp: Let_def)
      have "snd (driverLoop w ev k db tr) = tr @ (CheckStatus k ?s # ?c # [])"
        by (simp add: e)
      moreover have "haltsAtStopped (CheckStatus k ?s # ?c # [])"
        using False by (intro haltsAtStopped_step) simp_all
      moreover have "chunkSteps (CheckStatus k ?s # ?c # []) \<le> Suc (CHUNK_CEILING - k)"
        by simp
      ultimately show ?thesis by blast
    qed
  qed
qed


lemma processWikidata_eq:
  "processWikidata w ev db =
     (markCompleted w (ev_batchId ev)
        (interfere w BeforeMark (fst (driverLoop w ev 0 (initProcessing (ev_batchId ev) db) []))),
      snd (driverLoop w ev 0 (initProcessing (ev_batchId ev) db) []) @
        [MarkCompleted (batchStatusOf (ev_batchId ev)
           (interfere w BeforeMark (fst (driverLoop w ev 0 (initProcessing (ev_batchId ev) db) []))))])"
  by (simp add: processWikidata_def Let_def)

lemma markCompleted_stopped:
  "batchStatusOf b d = Some STOPPED \<Longrightarrow> markCompleted w b d = interfere w BeforeMarkWrite d"
  by (simp add: markCompleted_def markCompletedWrite_def)

lemma markCompleted_other:
  "batchStatusOf b d \<noteq> Some STOPPED \<Longrightarrow>
   markCompleted w b d =
     updateBatch b (\<lambda>d. d\<lparr> status := COMPLETED, progress := 100 \<rparr>) (interfere w BeforeMarkWrite d)"
  by (simp add: markCompleted_def markCompletedWrite_def)

lemma batchItems_markCompleted:
  "batchItems (markCompleted w b d) = batchItems (interfere w BeforeMarkWrite d)"
  by (simp add: markCompleted_def markCompletedWrite_def updateBatch_def split: option.splits)

text \<open>
  C3, as the code has it. When the status read at a chunk boundary is STOPPED, the loop
  returns there: the database is as the check found it and the check is the last step of
  the loop, so in the record of any run nothing follows such a check but the final step.
  The final step reads the status once more. If it reads STOPPED it writes nothing. If it
  reads anything else it then sets the status COMPLETED and the progress 100 in the
  document as stored at the time of the write, whatever status that has by then, the
  other fields unchanged.
\<close>

theorem stopped_halts_and_is_kept:
  "(\<forall>k d tr. batchStatusOf (ev_batchId ev) (interfere w (BeforeCheck k) d) = Some STOPPED \<longrightarrow>
      driverLoop w ev k d tr =
        (interfere w (BeforeCheck k) d, tr @ [CheckStatus k (Some STOPPED)])) \<and>
   (let loop = driverLoop w ev 0 (initProcessing (ev_batchId ev) db) [];
        d = interfere w BeforeMark (fst loop);
        d' = interfere w BeforeMarkWrite d
    in processWikidata w ev db =
         (markCompleted w (ev_batchId ev) d,
          snd loop @ [MarkCompleted (batchStatusOf (ev_batchId ev) d)]) \<and>
       (\<forall>pre k post. snd loop = pre @ CheckStatus k (Some STOPPED) # post \<longrightarrow> post = []) \<and>
       (batchStatusOf (ev_batchId ev) d = Some STOPPED \<longrightarrow> markCompleted w (ev_batchId ev) d = d') \<and>
       (batchStatusOf (ev_batchId ev) d \<noteq> Some STOPPED \<longrightarrow>
          batchItems (markCompleted w (ev_batchId ev) d) = batchItems d' \<and>
          (\<forall>b. b \<noteq> ev_batchId ev \<longrightarrow> batches (markCompleted w (ev_batchId ev) d) b = batches d' b) \<and>
          batches (markCompleted w (ev_batchId ev) d) (ev_batchId ev) =
            map_option (\<lambda>doc. doc\<lparr> status := COMPLETED, progress := 100 \<rparr>)
              (batches d' (ev_batchId ev))))"
proof -
  let ?b = "ev_batchId ev"
  let ?loop = "driverLoop w ev 0 (initProcessing ?b db) []"
  let ?d = "interfere w BeforeMark (fst ?loop)"
  let ?d' = "interfere w BeforeMarkWrite ?d"
  have c1: "\<forall>k d tr. batchStatusOf ?b (interfere w (BeforeCheck k) d) = Some STOPPED \<longrightarrow>
      driverLoop w ev k d tr =
        (interfere w (BeforeCheck k) d, tr @ [CheckStatus k (Some STOPPED)])"
    using driverLoop_stopped by blast
  have c2: "processWikidata w ev db =
         (markCompleted w ?b ?d, snd ?loop @ [MarkCompleted (batchStatusOf ?b ?d)])"
    by (rule processWikidata_eq)
  have c3: "\<forall>pre k post. snd ?loop = pre @ CheckStatus k (Some STOPPED) # post \<longrightarrow> post = []"
  proof (intro allI impI)
    fix pre k post assume e: "snd ?loop = pre @ CheckStatus k (Some STOPPED) # post"
    obtain ext where "snd ?loop = [] @ ext" and "haltsAtStopped ext"
      using driverLoop_trace[of w ev 0 "initProcessing ?b db" "[]"] by blast
    with e have "haltsAtStopped (pre @ CheckStatus k (Some STOPPED) # post)" by simp
    then show "post = []" by (rule haltsAtStopped_split)
  qed
  have c4: "batchStatusOf ?b ?d = Some STOPPED \<longrightarrow> markCompleted w ?b ?d = ?d'"
    by (simp add: markCompleted_stopped)
  have c5: "batchStatusOf ?b ?d \<noteq> Some STOPPED \<longrightarrow>
          batchItems (markCompleted w ?b ?d) = batchItems ?d' \<and>
          (\<forall>b. b \<noteq> ?b \<longrightarrow> batches (markCompleted w ?b ?d) b = batches ?d' b) \<and>
          batches (markCompleted w ?b ?d) ?b =
            map_option (\<lambda>doc. doc\<lparr> status := COMPLETED, progress := 100 \<rparr>) (batches ?d' ?b)"
    by (auto simp: markCompleted_other updateBatch_def split: option.splits)
  show ?thesis
    unfolding Let_def
    by (intro conjI) (fact c1, fact c2, fact c3, fact c4, fact c5)
qed

text \<open>
  C8, as the code has it. Every run of the driver takes at most 2001 chunk steps: the
  loop stops once the incremented chunk index is above 2000, which it first is after the
  chunk with index 2000. The loop is a total function, so every run ends.
\<close>

theorem chunk_steps_bounded:
  "chunkSteps (snd (processWikidata w ev db)) \<le> Suc CHUNK_CEILING \<and> Suc CHUNK_CEILING = 2001"
proof -
  obtain ext where x: "snd (driverLoop w ev 0 (initProcessing (ev_batchId ev) db) []) = [] @ ext"
    and c: "chunkSteps ext \<le> Suc (CHUNK_CEILING - 0)"
    using driverLoop_trace[of w ev 0 "initProcessing (ev_batchId ev) db" "[]"] by blast
  have "chunkSteps (snd (processWikidata w ev db)) = chunkSteps ext"
    using x by (simp add: processWikidata_eq chunkSteps_append)
  with c show ?thesis by (simp add: CHUNK_CEILING_def)
qed

section \<open>The number of chunk steps\<close>

lemma filter_notin_prefix:
  "set as \<inter> set bs = {} \<Longrightarrow> filter (\<lambda>j. j \<notin> set as) (as @ bs) = bs"
  by (auto simp: filter_empty_conv filter_id_conv)

lemma filter_notin_take:
  "distinct xs \<Longrightarrow> filter (\<lambda>j. j \<notin> set (take m xs)) xs = drop m xs"
proof -
  assume d: "distinct xs"
  have "distinct (take m xs @ drop m xs)" using d by simp
  then have "set (take m xs) \<inter> set (drop m xs) = {}" by (simp only: distinct_append)
  from filter_notin_prefix[OF this] show ?thesis by (simp only: append_take_drop_id)
qed

lemma distinct_pendingIds: "distinct (pendingIds b docs)"
  by (simp add: pendingIds_def)

lemma pendingIds_processChunk:
  "pendingIds (ev_batchId ev) (batchItems (fst (processChunk w ev k db))) =
   drop BATCH_SIZE (pendingIds (ev_batchId ev) (batchItems db))"
proof -
  let ?b = "ev_batchId ev"
  let ?docs = "batchItems db"
  let ?docs' = "batchItems (fst (processChunk w ev k db))"
  note f = processChunk_items[of w ev k db]
  have len: "length ?docs' = length ?docs" using f by blast
  have "pendingIds ?b ?docs' =
        filter (\<lambda>j. j \<notin> set (findPending ?b ?docs) \<and>
                    (batchId (?docs ! j) = ?b \<and> itemStatus (?docs ! j) = ItemPENDING)) [0..<length ?docs]"
    unfolding pendingIds_def len
    by (rule filter_cong[OF refl]) (use f in auto)
  also have "\<dots> = filter (\<lambda>j. j \<notin> set (take BATCH_SIZE (pendingIds ?b ?docs))) (pendingIds ?b ?docs)"
    by (simp add: pendingIds_def findPending_def conj_commute)
  also have "\<dots> = drop BATCH_SIZE (pendingIds ?b ?docs)"
    by (rule filter_notin_take[OF distinct_pendingIds])
  finally show ?thesis .
qed

lemma hasMore_processChunk:
  "hasMore (fst (snd (processChunk w ev k db))) =
     (length (findPending (ev_batchId ev) (batchItems db)) = BATCH_SIZE)"
  by (simp add: processChunk_def Let_def BATCH_SIZE_def)

lemma driverLoop_full:
  "\<forall>p d. interfere w p d = d \<Longrightarrow>
     batchStatusOf (ev_batchId ev) db \<noteq> Some STOPPED \<Longrightarrow> k \<le> CHUNK_CEILING \<Longrightarrow>
     BATCH_SIZE * (Suc CHUNK_CEILING - k) \<le> length (pendingIds (ev_batchId ev) (batchItems db)) \<Longrightarrow>
     chunkSteps (snd (driverLoop w ev k db tr)) = chunkSteps tr + (Suc CHUNK_CEILING - k)"
proof (induction w ev k db tr rule: driverLoop.induct)
  case (1 w ev k db tr)
  note quiet = "1.prems"(1)
  let ?b = "ev_batchId ev"
  let ?r = "processChunk w ev k db"
  let ?s = "batchStatusOf ?b db"
  let ?c = "ProcessChunk k (processed (fst (snd ?r))) (hasMore (fst (snd ?r))) (snd (snd ?r))"
  let ?tr' = "tr @ [CheckStatus k ?s, ?c]"
  have ns: "batchStatusOf ?b (interfere w (BeforeCheck k) db) \<noteq> Some STOPPED"
    using "1.prems"(2) quiet by simp
  have "BATCH_SIZE \<le> BATCH_SIZE * (Suc CHUNK_CEILING - k)" using "1.prems"(3) by auto
  then have "BATCH_SIZE \<le> length (pendingIds ?b (batchItems db))"
    using "1.prems"(4) by linarith
  then have more: "hasMore (fst (snd ?r))"
    by (simp add: hasMore_processChunk findPending_take)
  show ?case
  proof (cases "Suc k > CHUNK_CEILING")
    case True
    then have k: "k = CHUNK_CEILING" using "1.prems"(3) by simp
    have "driverLoop w ev k db tr = (fst ?r, ?tr')"
      using ns True quiet by (subst driverLoop.simps) (auto simp: Let_def)
    then show ?thesis by (simp add: chunkSteps_append k)
  next
    case False
    have e: "driverLoop w ev k db tr = driverLoop w ev (Suc k) (fst ?r) ?tr'"
      using ns False more quiet by (subst driverLoop.simps) (auto simp: Let_def)
    have st: "batchStatusOf ?b (fst ?r) \<noteq> Some STOPPED"
      using "1.prems"(2) by (simp add: batchStatusOf_processChunk)
    have le: "Suc k \<le> CHUNK_CEILING" using False by simp
    have "BATCH_SIZE * (Suc CHUNK_CEILING - Suc k) + BATCH_SIZE = BATCH_SIZE * (Suc CHUNK_CEILING - k)"
      using le by (simp add: Suc_diff_le algebra_simps)
    then have pc: "BATCH_SIZE * (Suc CHUNK_CEILING - Suc k) \<le>
                   length (pendingIds ?b (batchItems (fst ?r)))"
      using "1.prems"(4) by (simp add: pendingIds_processChunk)
    have ih: "chunkSteps (snd (driverLoop w ev (Suc k) (fst ?r) ?tr')) =
              chunkSteps ?tr' + (Suc CHUNK_CEILING - Suc k)"
      using "1.IH"[OF refl refl ns refl refl _ quiet] more False st le pc quiet by simp
    show ?thesis using le by (simp add: e ih chunkSteps_append Suc_diff_le)
  qed
qed

lemma pendingIds_bigDb: "pendingIds 7 (batchItems bigDb) = [0..<200100]"
proof -
  have "filter (\<lambda>i. batchId (batchItems bigDb ! i) = 7 \<and>
                      itemStatus (batchItems bigDb ! i) = ItemPENDING) [0..<200100] = [0..<200100]"
    by (rule filter_True) (simp add: bigDb_def newItem_def)
  then show ?thesis by (simp add: pendingIds_def bigDb_def)
qed

text \<open>
  The claim C8 fails on a job of 200100 pending items: with no stop request the driver
  takes 2001 chunk steps, one more than the claimed ceiling.
\<close>

theorem ceiling_allows_2001_chunks:
  "chunkSteps (snd (processWikidata quotaWorld exampleEvent bigDb)) = 2001"
proof -
  let ?db = "initProcessing (ev_batchId exampleEvent) bigDb"
  have q: "\<forall>p d. interfere quotaWorld p d = d" by (simp add: quotaWorld_def)
  have b: "ev_batchId exampleEvent = 7" by (simp add: exampleEvent_def)
  have s: "batchStatusOf (ev_batchId exampleEvent) ?db \<noteq> Some STOPPED"
    by (simp add: b initProcessing_def batchStatusOf_updateBatch bigDb_def)
  have i: "batchItems (initProcessing b bigDb) = batchItems bigDb" for b
    by (simp add: initProcessing_def batchItems_updateBatch)
  have p: "BATCH_SIZE * (Suc CHUNK_CEILING - 0) \<le>
           length (pendingIds (ev_batchId exampleEvent) (batchItems ?db))"
    by (simp add: i b pendingIds_bigDb BATCH_SIZE_def CHUNK_CEILING_def)
  have "chunkSteps (snd (driverLoop quotaWorld exampleEvent 0 ?db [])) =
        chunkSteps [] + (Suc CHUNK_CEILING - 0)"
    by (rule driverLoop_full[OF q s _ p]) simp
  then show ?thesis
    by (simp add: processWikidata_eq chunkSteps_append CHUNK_CEILING_def)
qed

lemma driverLoop_keeps_settled:
  "keepsSettledItems w \<Longrightarrow> j < length (batchItems db) \<Longrightarrow>
   itemStatus (batchItems db ! j) \<noteq> ItemPENDING \<Longrightarrow>
   j < length (batchItems (fst (driverLoop w ev k db tr))) \<and>
   batchItems (fst (driverLoop w ev k db tr)) ! j = batchItems db ! j"
proof (induction w ev k db tr rule: driverLoop.induct)
  case (1 w ev k db tr)
  note keeps = "1.prems"(1)
  let ?db1 = "interfere w (BeforeCheck k) db"
  let ?s = "batchStatusOf (ev_batchId ev) ?db1"
  have k1: "j < length (batchItems ?db1) \<and> batchItems ?db1 ! j = batchItems db ! j"
    using keeps "1.prems"(2,3) unfolding keepsSettledItems_def by blast
  show ?case
  proof (cases "?s = Some STOPPED")
    case True
    then show ?thesis using k1 by (simp add: driverLoop_stopped)
  next
    case False
    let ?db2 = "interfere w (BeforeChunk k) ?db1"
    let ?r = "processChunk w ev k ?db2"
    let ?tr' = "tr @ [CheckStatus k ?s,
                      ProcessChunk k (processed (fst (snd ?r))) (hasMore (fst (snd ?r)))
                        (snd (snd ?r))]"
    have k2: "j < length (batchItems ?db2) \<and> batchItems ?db2 ! j = batchItems db ! j"
      using keeps k1 "1.prems"(3) unfolding keepsSettledItems_def by metis
    have nf: "j \<notin> set (findPending (ev_batchId ev) (batchItems ?db2))"
      using findPending_facts[of j "ev_batchId ev" "batchItems ?db2"] k2 "1.prems"(3) by auto
    have k3: "j < length (batchItems (fst ?r)) \<and> batchItems (fst ?r) ! j = batchItems db ! j"
      using processChunk_items[of w ev k ?db2] nf k2 by simp
    show ?thesis
    proof (cases "hasMore (fst (snd ?r)) \<and> \<not> Suc k > CHUNK_CEILING")
      case True
      have e: "driverLoop w ev k db tr = driverLoop w ev (Suc k) (fst ?r) ?tr'"
        using False True by (subst driverLoop.simps) (simp add: Let_def)
      have "j < length (batchItems (fst (driverLoop w ev (Suc k) (fst ?r) ?tr'))) \<and>
            batchItems (fst (driverLoop w ev (Suc k) (fst ?r) ?tr')) ! j = batchItems (fst ?r) ! j"
        using "1.IH"[OF refl refl False refl refl _ keeps] True k3 "1.prems"(3) by simp
      then show ?thesis using k3 by (simp add: e)
    next
      case stop: False
      have e: "driverLoop w ev k db tr = (fst ?r, ?tr')"
        using False stop by (subst driverLoop.simps) (auto simp: Let_def)
      show ?thesis using k3 by (simp add: e)
    qed
  qed
qed

text \<open>
  C4. In every run of the driver, a resumed one included, a chunk step fetches only
  items of the job whose status is PENDING and changes no item it did not fetch. So,
  when other requests leave settled items alone, an item that is COMPLETED or FAILED
  when the run starts is still in its place at the end, with every field, its status,
  result and error among them, as it was.
\<close>

theorem resume_leaves_settled_items:
  assumes "keepsSettledItems w"
  shows "(\<forall>d i. i \<in> set (findPending (ev_batchId ev) (batchItems d)) \<longrightarrow>
            i < length (batchItems d) \<and> batchId (batchItems d ! i) = ev_batchId ev \<and>
            itemStatus (batchItems d ! i) = ItemPENDING) \<and>
         (\<forall>d k j. j \<notin> set (findPending (ev_batchId ev) (batchItems d)) \<longrightarrow>
            batchItems (fst (processChunk w ev k d)) ! j = batchItems d ! j) \<and>
         (\<forall>j. j < length (batchItems db) \<and> itemStatus (batchItems db ! j) \<noteq> ItemPENDING \<longrightarrow>
            j < length (batchItems (fst (processWikidata w ev db))) \<and>
            batchItems (fst (processWikidata w ev db)) ! j = batchItems db ! j)"
proof -
  have a: "\<forall>d i. i \<in> set (findPending (ev_batchId ev) (batchItems d)) \<longrightarrow>
            i < length (batchItems d) \<and> batchId (batchItems d ! i) = ev_batchId ev \<and>
            itemStatus (batchItems d ! i) = ItemPENDING"
    using findPending_facts by blast
  have b: "\<forall>d k j. j \<notin> set (findPending (ev_batchId ev) (batchItems d)) \<longrightarrow>
            batchItems (fst (processChunk w ev k d)) ! j = batchItems d ! j"
    using processChunk_items by blast
  have c: "\<forall>j. j < length (batchItems db) \<and> itemStatus (batchItems db ! j) \<noteq> ItemPENDING \<longrightarrow>
            j < length (batchItems (fst (processWikidata w ev db))) \<and>
            batchItems (fst (processWikidata w ev db)) ! j = batchItems db ! j"
  proof (intro allI impI)
    fix j assume j: "j < length (batchItems db) \<and> itemStatus (batchItems db ! j) \<noteq> ItemPENDING"
    let ?db0 = "initProcessing (ev_batchId ev) db"
    let ?d1 = "fst (driverLoop w ev 0 ?db0 [])"
    have i0: "batchItems ?db0 = batchItems db"
      by (simp add: initProcessing_def batchItems_updateBatch)
    have l: "j < length (batchItems ?d1) \<and> batchItems ?d1 ! j = batchItems db ! j"
      using driverLoop_keeps_settled[OF assms, of j ?db0 ev 0 "[]"] j by (simp add: i0)
    then have m: "j < length (batchItems (interfere w BeforeMark ?d1)) \<and>
                  batchItems (interfere w BeforeMark ?d1) ! j = batchItems db ! j"
      using assms j unfolding keepsSettledItems_def by metis
    then have "j < length (batchItems (interfere w BeforeMarkWrite (interfere w BeforeMark ?d1))) \<and>
               batchItems (interfere w BeforeMarkWrite (interfere w BeforeMark ?d1)) ! j =
                 batchItems db ! j"
      using assms j unfolding keepsSettledItems_def by metis
    then show "j < length (batchItems (fst (processWikidata w ev db))) \<and>
            batchItems (fst (processWikidata w ev db)) ! j = batchItems db ! j"
      by (simp add: processWikidata_eq batchItems_markCompleted)
  qed
  show ?thesis using a b c by blast
qed

section \<open>Properties of the progress writes\<close>









section \<open>The progress writes of a chunk step\<close>





















section \<open>A resumed run, step by step\<close>

lemma updateIntervalFor_small:
  "updateIntervalFor 1 = 1" "updateIntervalFor 2 = 1" "updateIntervalFor 3 = 1"
  by code_simp+

lemma percent_small:
  "percent 1 1 = 100" "percent 2 2 = 100" "percent 1 2 = 50" "percent 1 3 = 33" "percent 2 3 = 67"
  by code_simp+

lemma batchId_exampleEvent: "ev_batchId exampleEvent = 7"
  by (simp add: exampleEvent_def)

lemma batchItems_initProcessing: "batchItems (initProcessing b db) = batchItems db"
  by (simp add: initProcessing_def batchItems_updateBatch)

lemma findPending_resumeDb: "findPending 7 (batchItems resumeDb) = [Suc 0]"
  by (simp add: findPending_def resumeDb_def failedItem_def newItem_def BATCH_SIZE_def upt_rec)

lemma completionOrder_one: "completionOrder 1 (Suc 0) (\<lambda>s. 0) = [0]"
  by (simp add: completionOrder_def submitAll_def pLimit_def enqueue_def run_def finish_def
      nextTask_def)

lemma runChunk_resumeDb:
  "runChunk foundWorld exampleEvent 0 (initProcessing 7 resumeDb) [Suc 0] =
   \<lparr> cs_db = resumedDb PROCESSING, itemsCompletedInChunk = 1, progressWrites = [(2, 100)] \<rparr>"
  by (simp add: runChunk_def Let_def exampleEvent_def concurrency_def completionOrder_one
      runTasks_def processTask_def initProcessing_def updateBatch_def resumeDb_def newItem_def
      rowB_def truthy_def taskAttempts_def taskLookup_def retryLoop.simps MAX_RETRIES_def
      foundWorld_def granularUpdate_def chunkVars_def exampleBatch_def updateItem_def
      toFinalResult_def writeProgress_def percent_small updateIntervalFor_small BATCH_SIZE_def
      resumedDb_def linkedItem_def)

lemma processChunk_resumeDb:
  "processChunk foundWorld exampleEvent 0 (initProcessing 7 resumeDb) =
     (resumedDb PROCESSING, \<lparr> processed = 1, hasMore = False \<rparr>, [(2, 100), (2, 100)])"
proof -
  have s: "syncProgress 7 \<lparr> cs_db = resumedDb PROCESSING, itemsCompletedInChunk = 1,
                            progressWrites = [(2, 100)] \<rparr> =
           \<lparr> cs_db = resumedDb PROCESSING, itemsCompletedInChunk = 1,
             progressWrites = [(2, 100), (2, 100)] \<rparr>"
    by (simp add: syncProgress_def Let_def countFinished_def countItems_def resumedDb_def
        failedItem_def linkedItem_def percent_small updateIntervalFor_small writeProgress_def updateBatch_def
        exampleBatch_def)
  show ?thesis
    by (simp add: processChunk_def Let_def batchId_exampleEvent batchItems_initProcessing
        findPending_resumeDb runChunk_resumeDb s BATCH_SIZE_def)
qed

lemma driverLoop_resumeDb:
  "driverLoop foundWorld exampleEvent 0 (initProcessing 7 resumeDb) [] =
     (resumedDb PROCESSING,
      [CheckStatus 0 (Some PROCESSING), ProcessChunk 0 1 False [(2, 100), (2, 100)]])"
proof -
  have q: "interfere foundWorld p d = d" for p d by (simp add: foundWorld_def)
  have s: "batchStatusOf 7 (initProcessing 7 resumeDb) = Some PROCESSING"
    by (simp add: initProcessing_def batchStatusOf_updateBatch resumeDb_def)
  show ?thesis
    by (subst driverLoop.simps)
       (simp add: Let_def q s batchId_exampleEvent processChunk_resumeDb)
qed

lemma processWikidata_resumeDb:
  "processWikidata foundWorld exampleEvent resumeDb =
     (resumedDb COMPLETED,
      [CheckStatus 0 (Some PROCESSING), ProcessChunk 0 1 False [(2, 100), (2, 100)],
       MarkCompleted (Some PROCESSING)])"
proof -
  have q: "interfere foundWorld p d = d" for p d by (simp add: foundWorld_def)
  have m: "markCompleted foundWorld 7 (resumedDb PROCESSING) = resumedDb COMPLETED"
    by (simp add: markCompleted_def markCompletedWrite_def q batchStatusOf_def resumedDb_def
        updateBatch_def exampleBatch_def)
  have s: "batchStatusOf 7 (resumedDb PROCESSING) = Some PROCESSING"
    by (simp add: batchStatusOf_def resumedDb_def)
  show ?thesis
    by (simp add: processWikidata_eq batchId_exampleEvent driverLoop_resumeDb q m s)
qed

section \<open>Runs of the driver\<close>







theorem resume_leaves_settled_items_witness:
  "keepsSettledItems foundWorld \<and>
   findPending 7 (batchItems resumeDb) = [Suc 0] \<and>
   batchItems resumeDb ! 0 = failedItem \<and> itemStatus failedItem = ItemFAILED \<and>
   batchItems (fst (processWikidata foundWorld exampleEvent resumeDb)) ! 0 = failedItem \<and>
   batchItems (fst (processWikidata foundWorld exampleEvent resumeDb)) = [failedItem, linkedItem]"
proof -
  have k: "keepsSettledItems foundWorld"
    by (simp add: keepsSettledItems_def foundWorld_def)
  have h: "0 < length (batchItems resumeDb) \<and> itemStatus (batchItems resumeDb ! 0) \<noteq> ItemPENDING"
    by (simp add: resumeDb_def failedItem_def)
  have i: "batchItems resumeDb ! 0 = failedItem" "itemStatus failedItem = ItemFAILED"
    by (simp_all add: resumeDb_def failedItem_def)
  have z: "batchItems (fst (processWikidata foundWorld exampleEvent resumeDb)) ! 0 =
           batchItems resumeDb ! 0"
    using resume_leaves_settled_items [OF k, of exampleEvent resumeDb] h by blast
  have a: "batchItems (fst (processWikidata foundWorld exampleEvent resumeDb)) =
           [failedItem, linkedItem]"
    by (simp add: processWikidata_resumeDb resumedDb_def)
  show ?thesis using k i z a findPending_resumeDb by simp
qed

section \<open>A cancel during the last step\<close>

lemma runChunk_resumeDb_any:
  "runChunk (foundWorld\<lparr> interfere := f \<rparr>) exampleEvent 0 (initProcessing 7 resumeDb) [Suc 0] =
   \<lparr> cs_db = resumedDb PROCESSING, itemsCompletedInChunk = 1, progressWrites = [(2, 100)] \<rparr>"
  by (simp add: runChunk_def Let_def exampleEvent_def concurrency_def completionOrder_one
      runTasks_def processTask_def initProcessing_def updateBatch_def resumeDb_def newItem_def
      rowB_def truthy_def taskAttempts_def taskLookup_def retryLoop.simps MAX_RETRIES_def
      foundWorld_def granularUpdate_def chunkVars_def exampleBatch_def updateItem_def
      toFinalResult_def writeProgress_def percent_small updateIntervalFor_small BATCH_SIZE_def
      resumedDb_def linkedItem_def)

lemma processChunk_resumeDb_any:
  "processChunk (foundWorld\<lparr> interfere := f \<rparr>) exampleEvent 0 (initProcessing 7 resumeDb) =
     (resumedDb PROCESSING, \<lparr> processed = 1, hasMore = False \<rparr>, [(2, 100), (2, 100)])"
proof -
  have s: "syncProgress 7 \<lparr> cs_db = resumedDb PROCESSING, itemsCompletedInChunk = 1,
                            progressWrites = [(2, 100)] \<rparr> =
           \<lparr> cs_db = resumedDb PROCESSING, itemsCompletedInChunk = 1,
             progressWrites = [(2, 100), (2, 100)] \<rparr>"
    by (simp add: syncProgress_def Let_def countFinished_def countItems_def resumedDb_def
        failedItem_def linkedItem_def percent_small writeProgress_def updateBatch_def
        exampleBatch_def)
  show ?thesis
    by (simp add: processChunk_def Let_def batchId_exampleEvent batchItems_initProcessing
        findPending_resumeDb runChunk_resumeDb_any s BATCH_SIZE_def)
qed

lemma driverLoop_resumeDb_any:
  assumes "\<And>k d. f (BeforeCheck k) d = d" and "\<And>k d. f (BeforeChunk k) d = d"
  shows "driverLoop (foundWorld\<lparr> interfere := f \<rparr>) exampleEvent 0 (initProcessing 7 resumeDb) [] =
     (resumedDb PROCESSING,
      [CheckStatus 0 (Some PROCESSING), ProcessChunk 0 1 False [(2, 100), (2, 100)]])"
proof -
  have s: "batchStatusOf 7 (initProcessing 7 resumeDb) = Some PROCESSING"
    by (simp add: initProcessing_def batchStatusOf_updateBatch resumeDb_def)
  show ?thesis
    by (subst driverLoop.simps)
       (simp add: Let_def assms s batchId_exampleEvent processChunk_resumeDb_any)
qed

lemma cancel_resumedDb: "snd (cancel (\<lambda>d. d) 7 (resumedDb PROCESSING)) = resumedDb STOPPED"
  by (simp add: cancel_def cancelSave_def resumedDb_def updateBatch_def exampleBatch_def)

lemma processWikidata_raceWorld:
  "processWikidata raceWorld exampleEvent resumeDb =
     (resumedDb COMPLETED,
      [CheckStatus 0 (Some PROCESSING), ProcessChunk 0 1 False [(2, 100), (2, 100)],
       MarkCompleted (Some PROCESSING)])"
proof -
  let ?f = "\<lambda>p db. case p of BeforeMarkWrite \<Rightarrow> snd (cancel (\<lambda>d. d) 7 db) | _ \<Rightarrow> db"
  have i: "interfere raceWorld = ?f" by (simp add: raceWorld_def)
  have l: "driverLoop raceWorld exampleEvent 0 (initProcessing 7 resumeDb) [] =
     (resumedDb PROCESSING,
      [CheckStatus 0 (Some PROCESSING), ProcessChunk 0 1 False [(2, 100), (2, 100)]])"
    unfolding raceWorld_def by (rule driverLoop_resumeDb_any) simp_all
  have s: "batchStatusOf 7 (resumedDb PROCESSING) = Some PROCESSING"
    by (simp add: batchStatusOf_def resumedDb_def)
  have m: "markCompleted raceWorld 7 (resumedDb PROCESSING) = resumedDb COMPLETED"
    by (simp add: markCompleted_def markCompletedWrite_def i s cancel_resumedDb)
       (simp add: resumedDb_def updateBatch_def exampleBatch_def)
  show ?thesis
    by (simp add: processWikidata_eq batchId_exampleEvent l i m s)
qed

text \<open>
  The claim C3 fails when a cancel request is served between the read and the write of
  the final step: the step read PROCESSING, the request then stopped the job, and the
  step's write sets the stopped job to COMPLETED.
\<close>

theorem cancel_before_final_write_is_overwritten:
  "fst (driverLoop raceWorld exampleEvent 0 (initProcessing 7 resumeDb) []) = resumedDb PROCESSING \<and>
   interfere raceWorld BeforeMark (resumedDb PROCESSING) = resumedDb PROCESSING \<and>
   interfere raceWorld BeforeMarkWrite (resumedDb PROCESSING) = resumedDb STOPPED \<and>
   batchStatusOf 7 (resumedDb STOPPED) = Some STOPPED \<and>
   processWikidata raceWorld exampleEvent resumeDb =
     (resumedDb COMPLETED,
      [CheckStatus 0 (Some PROCESSING), ProcessChunk 0 1 False [(2, 100), (2, 100)],
       MarkCompleted (Some PROCESSING)]) \<and>
   batchStatusOf 7 (resumedDb COMPLETED) = Some COMPLETED"
proof -
  have l: "fst (driverLoop raceWorld exampleEvent 0 (initProcessing 7 resumeDb) []) =
           resumedDb PROCESSING"
    unfolding raceWorld_def by (subst driverLoop_resumeDb_any) simp_all
  have i: "interfere raceWorld BeforeMark (resumedDb PROCESSING) = resumedDb PROCESSING"
    by (simp add: raceWorld_def)
  have j: "interfere raceWorld BeforeMarkWrite (resumedDb PROCESSING) = resumedDb STOPPED"
    by (simp add: raceWorld_def cancel_resumedDb)
  have s: "batchStatusOf 7 (resumedDb STOPPED) = Some STOPPED"
    "batchStatusOf 7 (resumedDb COMPLETED) = Some COMPLETED"
    by (simp_all add: batchStatusOf_def resumedDb_def)
  show ?thesis
    by (intro conjI) (fact l, fact i, fact j, fact s(1), fact processWikidata_raceWorld, fact s(2))
qed

theorem stopped_halts_and_is_kept_witness:
  "batchStatusOf 7 (interfere stopWorld (BeforeCheck 0) (initProcessing 7 exampleDb)) = Some STOPPED \<and>
   driverLoop stopWorld exampleEvent 0 (initProcessing 7 exampleDb) [] =
     (finishedDb STOPPED\<lparr> batchItems := [newItem 7 exampleItem] \<rparr>,
      [CheckStatus 0 (Some STOPPED)]) \<and>
   processWikidata stopWorld exampleEvent exampleDb =
     (finishedDb STOPPED\<lparr> batchItems := [newItem 7 exampleItem] \<rparr>,
      [CheckStatus 0 (Some STOPPED), MarkCompleted (Some STOPPED)]) \<and>
   batchStatusOf 7 (resumedDb PROCESSING) \<noteq> Some STOPPED \<and>
   processWikidata foundWorld exampleEvent resumeDb =
     (resumedDb COMPLETED,
      [CheckStatus 0 (Some PROCESSING), ProcessChunk 0 1 False [(2, 100), (2, 100)],
       MarkCompleted (Some PROCESSING)]) \<and>
   batches (resumedDb COMPLETED) 7 =
     map_option (\<lambda>doc. doc\<lparr> status := COMPLETED, progress := 100 \<rparr>) (batches (resumedDb PROCESSING) 7)"
proof -
  let ?d0 = "initProcessing 7 exampleDb"
  let ?d1 = "finishedDb STOPPED\<lparr> batchItems := [newItem 7 exampleItem] \<rparr>"
  have i: "interfere stopWorld (BeforeCheck k) d = snd (cancel (\<lambda>d. d) 7 d)"
          "interfere stopWorld BeforeMark d = d" "interfere stopWorld BeforeMarkWrite d = d" for k d
    by (simp_all add: stopWorld_def)
  have c: "snd (cancel (\<lambda>d. d) 7 ?d0) = ?d1"
    by (simp add: cancel_def cancelSave_def initProcessing_def updateBatch_def exampleDb_def
        finishedDb_def exampleBatch_def)
  have s: "batchStatusOf (ev_batchId exampleEvent)
             (interfere stopWorld (BeforeCheck 0) ?d0) = Some STOPPED"
    by (simp add: i c batchId_exampleEvent batchStatusOf_def finishedDb_def)
  note T = stopped_halts_and_is_kept [of exampleEvent stopWorld exampleDb]
  note T1 = T[THEN conjunct1, rule_format]
  note T2 = T[THEN conjunct2, unfolded Let_def]
  have d: "driverLoop stopWorld exampleEvent 0 ?d0 [] = (?d1, [CheckStatus 0 (Some STOPPED)])"
    using T1[where k = 0 and d = ?d0 and tr = "[]"] s by (simp add: i c)
  have m: "batchStatusOf 7 ?d1 = Some STOPPED"
    by (simp add: batchStatusOf_def finishedDb_def)
  have mk: "markCompleted stopWorld 7 ?d1 = ?d1"
    using T2[THEN conjunct2, THEN conjunct2, THEN conjunct1] m
    by (simp add: batchId_exampleEvent d i)
  have p: "processWikidata stopWorld exampleEvent exampleDb =
     (?d1, [CheckStatus 0 (Some STOPPED), MarkCompleted (Some STOPPED)])"
    using T2[THEN conjunct1] by (simp add: batchId_exampleEvent d i m mk)
  have n: "batchStatusOf 7 (resumedDb PROCESSING) \<noteq> Some STOPPED"
    by (simp add: batchStatusOf_def resumedDb_def)
  have f: "batches (resumedDb COMPLETED) 7 =
     map_option (\<lambda>doc. doc\<lparr> status := COMPLETED, progress := 100 \<rparr>) (batches (resumedDb PROCESSING) 7)"
    by (simp add: resumedDb_def exampleBatch_def)
  have s7: "batchStatusOf 7 (interfere stopWorld (BeforeCheck 0) ?d0) = Some STOPPED"
    using s by (simp add: batchId_exampleEvent)
  show ?thesis
    by (intro conjI) (fact s7, fact d, fact p, fact n, fact processWikidata_resumeDb, fact f)
qed

section \<open>Runs that write progress\<close>


























end
